theory Spec2Isabelle
  imports Main
begin

section \<open>Go library functions used by the package\<close>

text \<open>
  Go strings and byte slices are byte sequences: \<^typ>\<open>string\<close>.  An \<open>error\<close> value is
  modelled by its message (what \<open>err.Error()\<close> returns); \<open>nil\<close> is \<^const>\<open>None\<close>.
\<close>

type_synonym error = string

text \<open>\<open>strings.HasPrefix(s, prefix)\<close>.\<close>

definition HasPrefix :: "string \<Rightarrow> string \<Rightarrow> bool" where
  "HasPrefix s pre = (take (length pre) s = pre)"

text \<open>
  \<open>strings.Split(s, sep)\<close> for a non-empty separator \<open>c # cs\<close>: \<open>s\<close> is cut at every
  occurrence of the separator, found from left to right without overlap; the result always
  has at least one element.  \<open>acc\<close> holds the bytes of the current piece, reversed.
\<close>

fun SplitAcc :: "char \<Rightarrow> string \<Rightarrow> string \<Rightarrow> string \<Rightarrow> string list" where
  "SplitAcc c cs acc [] = [rev acc]"
| "SplitAcc c cs acc (x # xs) =
     (if x = c \<and> take (length cs) xs = cs
      then rev acc # SplitAcc c cs [] (drop (length cs) xs)
      else SplitAcc c cs (x # acc) xs)"

definition Split :: "string \<Rightarrow> string \<Rightarrow> string list" where
  "Split s sep = (case sep of c # cs \<Rightarrow> SplitAcc c cs [] s | [] \<Rightarrow> map (\<lambda>x. [x]) s)"

text \<open>
  \<open>utf8.DecodeRuneInString\<close> on a non-empty byte string with first byte \<open>b0\<close> and
  remaining bytes \<open>bs\<close>: the code point at its head and its width.  Any ill-formed or
  truncated encoding yields \<open>RuneError\<close> (U+FFFD) of width 1.
\<close>

definition RuneError :: nat where
  "RuneError = 65533"

definition cont :: "nat \<Rightarrow> bool" where
  "cont b = (128 \<le> b \<and> b \<le> 191)"

definition DecodeRune :: "nat \<Rightarrow> nat list \<Rightarrow> nat \<times> nat" where
  "DecodeRune b0 bs =
     (if b0 < 128 then (b0, 1)
      else if 194 \<le> b0 \<and> b0 \<le> 223 then
        (case bs of
           b1 # _ \<Rightarrow> if cont b1 then ((b0 mod 32) * 64 + b1 mod 64, 2) else (RuneError, 1)
         | _ \<Rightarrow> (RuneError, 1))
      else if 224 \<le> b0 \<and> b0 \<le> 239 then
        (case bs of
           b1 # b2 # _ \<Rightarrow>
             if (if b0 = 224 then 160 else 128) \<le> b1 \<and> b1 \<le> (if b0 = 237 then 159 else 191)
                \<and> cont b2
             then ((b0 mod 16) * 4096 + (b1 mod 64) * 64 + b2 mod 64, 3)
             else (RuneError, 1)
         | _ \<Rightarrow> (RuneError, 1))
      else if 240 \<le> b0 \<and> b0 \<le> 244 then
        (case bs of
           b1 # b2 # b3 # _ \<Rightarrow>
             if (if b0 = 240 then 144 else 128) \<le> b1 \<and> b1 \<le> (if b0 = 244 then 143 else 191)
                \<and> cont b2 \<and> cont b3
             then ((b0 mod 8) * 262144 + (b1 mod 64) * 4096 + (b2 mod 64) * 64 + b3 mod 64, 4)
             else (RuneError, 1)
         | _ \<Rightarrow> (RuneError, 1))
      else (RuneError, 1))"

fun decodeRunes :: "nat list \<Rightarrow> nat list" where
  "decodeRunes [] = []"
| "decodeRunes (b # bs) =
     fst (DecodeRune b bs) # decodeRunes (drop (snd (DecodeRune b bs) - 1) bs)"

text \<open>
  The fragment of Go regular expressions the package uses, matched against the whole text
  (both patterns are anchored by \<open>^\<close> and \<open>$\<close>) by Brzozowski derivatives over the
  decoded runes.  The character classes are \<open>[\+-]\<close>, \<open>\d\<close> (ASCII digits) and \<open>.\<close>
  (any rune but a newline).
\<close>

datatype cclass = CSign | CDigit | CAnyNotNL

fun cmatch :: "cclass \<Rightarrow> nat \<Rightarrow> bool" where
  "cmatch CSign r = (r = 43 \<or> r = 45)"
| "cmatch CDigit r = (48 \<le> r \<and> r \<le> 57)"
| "cmatch CAnyNotNL r = (r \<noteq> 10)"

datatype rexp = Zero | One | Atom cclass | Alt rexp rexp | Seq rexp rexp | Star rexp

fun nullable :: "rexp \<Rightarrow> bool" where
  "nullable Zero = False"
| "nullable One = True"
| "nullable (Atom c) = False"
| "nullable (Alt r s) = (nullable r \<or> nullable s)"
| "nullable (Seq r s) = (nullable r \<and> nullable s)"
| "nullable (Star r) = True"

fun deriv :: "nat \<Rightarrow> rexp \<Rightarrow> rexp" where
  "deriv a Zero = Zero"
| "deriv a One = Zero"
| "deriv a (Atom c) = (if cmatch c a then One else Zero)"
| "deriv a (Alt r s) = Alt (deriv a r) (deriv a s)"
| "deriv a (Seq r s) =
     (if nullable r then Alt (Seq (deriv a r) s) (deriv a s) else Seq (deriv a r) s)"
| "deriv a (Star r) = Seq (deriv a r) (Star r)"

definition MatchString :: "rexp \<Rightarrow> string \<Rightarrow> bool" where
  "MatchString r s = nullable (foldl (\<lambda>r a. deriv a r) r (decodeRunes (map of_char s)))"

definition Opt :: "rexp \<Rightarrow> rexp" where
  "Opt r = Alt r One"

definition Plus :: "rexp \<Rightarrow> rexp" where
  "Plus r = Seq r (Star r)"

text \<open>The pattern \<^verbatim>\<open>^[\+-]?\d+$\<close>.\<close>

definition numberRegexp :: rexp where
  "numberRegexp = Seq (Opt (Atom CSign)) (Plus (Atom CDigit))"

text \<open>The pattern \<^verbatim>\<open>^[\+-]?\d+(.\d+)?$\<close>; its dot is not escaped.\<close>

definition realRegexp :: rexp where
  "realRegexp =
     Seq (Opt (Atom CSign))
       (Seq (Plus (Atom CDigit)) (Opt (Seq (Atom CAnyNotNL) (Plus (Atom CDigit)))))"


section \<open>The data model of \<open>sgf.go\<close>\<close>

datatype ValidationStatus = NotValidated | ValidationDeferred | Valid | Invalid

datatype PropertyType =
  PropertyTypeRoot | PropertyTypeGameInfo | PropertyTypeSetup | PropertyTypeMove
  | PropertyTypeNull | PropertyTypeUnknown

datatype propertyListiness = propertyNotList | propertyList | propertyEList | propertyUnknownList

record propertyTypeInfo =
  d :: string
  t :: PropertyType
  vn :: string
  l :: propertyListiness

text \<open>
  \<open>PropertyValue\<close> has the fields \<open>Value\<close> and \<open>validatorName\<close>; the second is
  named \<open>pvValidatorName\<close> here because \<open>Property\<close> has a field of the same name.
  A Property holds its values themselves rather than pointers to them: the parser creates
  every value freshly and attaches it to one Property only.
\<close>

record PropertyValue =
  Value :: string
  pvValidatorName :: string

record Property =
  Type :: PropertyType
  Identity :: string
  Values :: "PropertyValue list"
  Description :: string
  Validated :: ValidationStatus
  validatorName :: string
  listiness :: propertyListiness

record Node =
  Properties :: "Property list"

datatype GameTree = GameTree (Sequence: "Node list") (Subtrees: "GameTree list")

definition mk :: "string \<Rightarrow> PropertyType \<Rightarrow> string \<Rightarrow> propertyListiness \<Rightarrow> propertyTypeInfo" where
  "mk dd tt vv ll = \<lparr>d = dd, t = tt, vn = vv, l = ll\<rparr>"

definition propertyTypeTable :: "(string \<times> propertyTypeInfo) list" where
  "propertyTypeTable =
   [('''', mk ''Empty property'' PropertyTypeUnknown ''none'' propertyNotList),
    (''B'', mk ''Black'' PropertyTypeMove ''move'' propertyNotList),
    (''BL'', mk ''Black time left'' PropertyTypeMove ''real'' propertyNotList),
    (''BM'', mk ''Bad move'' PropertyTypeMove ''double'' propertyNotList),
    (''DO'', mk ''Doubtful'' PropertyTypeMove ''none'' propertyNotList),
    (''IT'', mk ''Interesting'' PropertyTypeMove ''none'' propertyNotList),
    (''KO'', mk ''Ko'' PropertyTypeMove ''none'' propertyNotList),
    (''MN'', mk ''set MoveNumber'' PropertyTypeMove ''none'' propertyNotList),
    (''OB'', mk ''OtStones Black'' PropertyTypeMove ''number'' propertyNotList),
    (''OW'', mk ''OtStones White'' PropertyTypeMove ''number'' propertyNotList),
    (''TE'', mk ''Tesuji'' PropertyTypeMove ''double'' propertyNotList),
    (''W'', mk ''White'' PropertyTypeMove ''move'' propertyNotList),
    (''WL'', mk ''White time left'' PropertyTypeMove ''real'' propertyNotList),
    (''AB'', mk ''Add Black'' PropertyTypeSetup ''stone'' propertyList),
    (''AE'', mk ''Add Empty'' PropertyTypeSetup ''point'' propertyList),
    (''AW'', mk ''Add White'' PropertyTypeSetup ''stone'' propertyList),
    (''PL'', mk ''Player to play'' PropertyTypeSetup ''color'' propertyNotList),
    (''AR'', mk ''Arrow'' PropertyTypeNull ''point : point'' propertyList),
    (''C'', mk ''Comment'' PropertyTypeNull ''text'' propertyNotList),
    (''CR'', mk ''Circle'' PropertyTypeNull ''point'' propertyList),
    (''DD'', mk ''Dim points'' PropertyTypeNull ''point'' propertyEList),
    (''DM'', mk ''Even position'' PropertyTypeNull ''double'' propertyNotList),
    (''FG'', mk ''Figure'' PropertyTypeNull ''none | number : simpletext'' propertyNotList),
    (''GB'', mk ''Good for Black'' PropertyTypeNull ''double'' propertyNotList),
    (''GW'', mk ''Good for White'' PropertyTypeNull ''double'' propertyNotList),
    (''HO'', mk ''Hotspot'' PropertyTypeNull ''double'' propertyNotList),
    (''LB'', mk ''Label'' PropertyTypeNull ''point : simpletext'' propertyList),
    (''LN'', mk ''Line'' PropertyTypeNull ''point : point'' propertyList),
    (''MA'', mk ''Mark'' PropertyTypeNull ''point'' propertyList),
    (''N'', mk ''Nodename'' PropertyTypeNull ''simpletext'' propertyNotList),
    (''PM'', mk ''Print move mode'' PropertyTypeNull ''number'' propertyNotList),
    (''SL'', mk ''Selected'' PropertyTypeNull ''point'' propertyList),
    (''SQ'', mk ''Square'' PropertyTypeNull ''point'' propertyList),
    (''TR'', mk ''Triangle'' PropertyTypeNull ''point'' propertyList),
    (''UC'', mk ''Unclear pos'' PropertyTypeNull ''double'' propertyNotList),
    (''VW'', mk ''View'' PropertyTypeNull ''point'' propertyEList),
    (''AP'', mk ''Application'' PropertyTypeRoot ''simpletext : number'' propertyNotList),
    (''CA'', mk ''Charset'' PropertyTypeRoot ''simpletext'' propertyNotList),
    (''FF'', mk ''Fileformat'' PropertyTypeRoot ''number'' propertyNotList),
    (''GM'', mk ''Game'' PropertyTypeRoot ''number'' propertyNotList),
    (''ST'', mk ''Style'' PropertyTypeRoot ''number'' propertyNotList),
    (''SZ'', mk ''Size'' PropertyTypeRoot ''number | number : number'' propertyNotList),
    (''AN'', mk ''Annotation'' PropertyTypeGameInfo ''simpletext'' propertyNotList),
    (''BR'', mk ''Black rank'' PropertyTypeGameInfo ''simpletext'' propertyNotList),
    (''BT'', mk ''Black team'' PropertyTypeGameInfo ''simpletext'' propertyNotList),
    (''CP'', mk ''Copyright'' PropertyTypeGameInfo ''simpletext'' propertyNotList),
    (''DT'', mk ''Date'' PropertyTypeGameInfo ''simpletext'' propertyNotList),
    (''EV'', mk ''Event'' PropertyTypeGameInfo ''simpletext'' propertyNotList),
    (''GC'', mk ''Game comment'' PropertyTypeGameInfo ''text'' propertyNotList),
    (''GN'', mk ''Game name'' PropertyTypeGameInfo ''simpletext'' propertyNotList),
    (''OP'', mk ''Opening'' PropertyTypeGameInfo ''simpletext'' propertyNotList),
    (''PB'', mk ''Player Black'' PropertyTypeGameInfo ''simpletext'' propertyNotList),
    (''PC'', mk ''Place'' PropertyTypeGameInfo ''simpletext'' propertyNotList),
    (''PW'', mk ''Player White'' PropertyTypeGameInfo ''simpletext'' propertyNotList),
    (''RE'', mk ''Result'' PropertyTypeGameInfo ''simpletext'' propertyNotList),
    (''RO'', mk ''Round'' PropertyTypeGameInfo ''simpletext'' propertyNotList),
    (''RU'', mk ''Rules'' PropertyTypeGameInfo ''simpletext'' propertyNotList),
    (''SO'', mk ''Source'' PropertyTypeGameInfo ''simpletext'' propertyNotList),
    (''TM'', mk ''Timelimit'' PropertyTypeGameInfo ''real'' propertyNotList),
    (''US'', mk ''User'' PropertyTypeGameInfo ''simpletext'' propertyNotList),
    (''WR'', mk ''White rank'' PropertyTypeGameInfo ''simpletext'' propertyNotList),
    (''WT'', mk ''White team'' PropertyTypeGameInfo ''simpletext'' propertyNotList),
    (''TB'', mk ''Territory Black'' PropertyTypeNull ''point'' propertyEList),
    (''TW'', mk ''Territory White'' PropertyTypeNull ''point'' propertyEList),
    (''HA'', mk ''Handicap'' PropertyTypeGameInfo ''number'' propertyNotList),
    (''KM'', mk ''Komi'' PropertyTypeGameInfo ''real'' propertyNotList),
    (''AS'', mk ''Who adds stones'' PropertyTypeNull ''simpletext'' propertyNotList),
    (''IP'', mk ''Initial pos.'' PropertyTypeGameInfo ''simpletext'' propertyNotList),
    (''IY'', mk ''Invert Y-axis'' PropertyTypeGameInfo ''simpletext'' propertyNotList),
    (''SE'', mk ''Markup'' PropertyTypeNull ''point'' propertyNotList),
    (''SU'', mk ''Setup type'' PropertyTypeGameInfo ''simpletext'' propertyNotList)]"

definition propertyTypeMap :: "string \<Rightarrow> propertyTypeInfo option" where
  "propertyTypeMap = map_of propertyTypeTable"


section \<open>Validation of property values\<close>

definition deferredMessage :: string where
  "deferredMessage =
     ''validation deferred: must be validated in the context of the full SGF structure''"

definition validatePropertyValuePart :: "string \<Rightarrow> string \<Rightarrow> error option" where
  "validatePropertyValuePart validator v =
     (if validator = ''unknown'' then None
      else if validator = ''none'' then
        (if v = '''' then None else Some ''None type Property Values must be empty'')
      else if validator = ''double'' then
        (if v = ''1'' \<or> v = ''2'' then None
         else Some (''Double type Property Values must be either '1' or '2'' @ [CHR 0x27]))
      else if validator = ''color'' then
        (if v = ''B'' \<or> v = ''W'' then None
         else Some (''Color type Property Values must be either 'B' or 'W'' @ [CHR 0x27]))
      else if validator = ''number'' then
        (if MatchString numberRegexp v then None
         else Some ''Number type Property Value expected positive or negative integer'')
      else if validator = ''real'' then
        (if MatchString realRegexp v then None
         else Some ''Real type Property Value expected positive or negative real number'')
      else if validator = ''text'' \<or> validator = ''simpletext'' then None
      else if validator = ''move'' \<or> validator = ''stone'' \<or> validator = ''point'' then
        Some deferredMessage
      else Some (''No validation implemented for type '' @ validator @ '' and value '' @ v))"

text \<open>
  The inner loop of \<open>validatePropertyValue\<close>: the parts of the value are checked in order
  against the atoms of one alternative (both lists have the same length there) and the
  loop stops at the first error.
\<close>

fun validateParts :: "string list \<Rightarrow> string list \<Rightarrow> error option" where
  "validateParts (c # cs) (v # vs) =
     (case validatePropertyValuePart c v of
        Some e \<Rightarrow> Some e
      | None \<Rightarrow> validateParts cs vs)"
| "validateParts _ _ = None"

text \<open>
  One round of the outer loop: the entry appended to \<open>errors\<close> for the alternative
  \<open>vn_part\<close>.
\<close>

definition validateAlternative :: "string \<Rightarrow> string \<Rightarrow> error option" where
  "validateAlternative v vn_part =
     (let composed_parts = Split vn_part '' : '';
          value_parts = Split v '':''
      in if length composed_parts \<noteq> length value_parts
         then Some ''not enough parts in composition''
         else validateParts composed_parts value_parts)"

fun firstError :: "error option list \<Rightarrow> error option" where
  "firstError [] = None"
| "firstError (None # es) = firstError es"
| "firstError (Some e # es) = Some e"

definition errorCount :: "error option list \<Rightarrow> nat" where
  "errorCount es = length (filter (\<lambda>e. e \<noteq> None) es)"

definition validatePropertyValue :: "PropertyValue \<Rightarrow> error option" where
  "validatePropertyValue pv =
     (let vn_parts = Split (pvValidatorName pv) '' | '';
          errors = map (validateAlternative (Value pv)) vn_parts
      in if errorCount errors = length errors then firstError errors else None)"

text \<open>
  The loop of \<open>validatePropertyValues\<close> over the values: it carries the status and the
  list \<open>errors\<close>.
\<close>

fun validateLoop ::
  "ValidationStatus \<Rightarrow> error option list \<Rightarrow> PropertyValue list
     \<Rightarrow> ValidationStatus \<times> error option list" where
  "validateLoop st errors [] = (st, errors)"
| "validateLoop st errors (pv # pvs) =
     (case validatePropertyValue pv of
        Some err \<Rightarrow>
          if HasPrefix err ''validation deferred:''
          then validateLoop ValidationDeferred (errors @ [None]) pvs
          else validateLoop st (errors @ [Some err]) pvs
      | None \<Rightarrow> validateLoop st (errors @ [None]) pvs)"

definition validatePropertyValues :: "Property \<Rightarrow> Property \<times> error option" where
  "validatePropertyValues p =
     (if listiness p = propertyNotList \<and> length (Values p) > 1
      then (p\<lparr>Validated := Invalid\<rparr>,
            Some (''Property '' @ Identity p @ '' can only have one value''))
      else
        (case validateLoop NotValidated [] (Values p) of
           (st, errors) \<Rightarrow>
             (case firstError errors of
                Some first_error \<Rightarrow> (p\<lparr>Validated := Invalid\<rparr>, Some first_error)
              | None \<Rightarrow>
                  (p\<lparr>Validated := (if st = NotValidated then Valid else st)\<rparr>, None))))"

definition NewProperty :: "string \<Rightarrow> PropertyValue list \<Rightarrow> Property \<times> error option" where
  "NewProperty identity values =
     validatePropertyValues
       (case propertyTypeMap identity of
          Some typeInfo \<Rightarrow>
            \<lparr>Type = t typeInfo, Identity = identity,
             Values = map (\<lambda>v. v\<lparr>pvValidatorName := vn typeInfo\<rparr>) values,
             Description = d typeInfo, Validated = NotValidated,
             validatorName = vn typeInfo, listiness = l typeInfo\<rparr>
        | None \<Rightarrow>
            \<lparr>Type = PropertyTypeUnknown, Identity = identity, Values = values,
             Description = ''unknown'', Validated = NotValidated,
             validatorName = ''unknown'', listiness = propertyUnknownList\<rparr>)"

definition NewPropertyValue :: "string \<Rightarrow> PropertyValue" where
  "NewPropertyValue v = \<lparr>Value = v, pvValidatorName = ''unknown''\<rparr>"

definition NewEmptyPropertyValue :: PropertyValue where
  "NewEmptyPropertyValue = \<lparr>Value = '''', pvValidatorName = ''unknown''\<rparr>"

definition SetValue :: "PropertyValue \<Rightarrow> string \<Rightarrow> PropertyValue" where
  "SetValue pv v = pv\<lparr>Value := v\<rparr>"

definition AddValue :: "Property \<Rightarrow> PropertyValue \<Rightarrow> Property \<times> error option" where
  "AddValue p pv =
     validatePropertyValues
       (p\<lparr>Values := Values p @
            [if pvValidatorName pv = ''unknown''
             then pv\<lparr>pvValidatorName := validatorName p\<rparr> else pv]\<rparr>)"

definition NewNode :: Node where
  "NewNode = \<lparr>Properties = []\<rparr>"

definition AddProperty :: "Node \<Rightarrow> Property \<Rightarrow> Node \<times> error option" where
  "AddProperty n p =
     (if \<exists>existingProperty \<in> set (Properties n). Identity p = Identity existingProperty
      then (n, Some ''sgf: only one of each property is allowed per node'')
      else (n\<lparr>Properties := Properties n @ [p]\<rparr>, None))"

definition NewGameTree :: GameTree where
  "NewGameTree = GameTree [] []"

definition AddSubtree :: "GameTree \<Rightarrow> GameTree \<Rightarrow> GameTree" where
  "AddSubtree gt st = GameTree (Sequence gt) (Subtrees gt @ [st])"


section \<open>Serialisation\<close>

definition PropertyValue_String :: "PropertyValue \<Rightarrow> string" where
  "PropertyValue_String v = ''['' @ Value v @ '']''"

definition Property_String :: "Property \<Rightarrow> string" where
  "Property_String p = Identity p @ concat (map PropertyValue_String (Values p))"

definition Node_String :: "Node \<Rightarrow> string" where
  "Node_String n = '';'' @ concat (map Property_String (Properties n))"

fun GameTree_String :: "GameTree \<Rightarrow> string" where
  "GameTree_String (GameTree sq sts) =
     ''('' @ concat (map Node_String sq) @ concat (map GameTree_String sts) @ '')''"

section \<open>The lexer\<close>

datatype itemType =
  itemError | itemWarning | itemOpenParen | itemCloseParen | itemOpenBracket
  | itemCloseBracket | itemSemiColon | itemEOF | itemPropertyIdent | itemPropertyValue

text \<open>
  An item carries its type and the bytes \<open>input[start:pos]\<close> (for an error or a warning,
  the message).  Its \<open>pos\<close> field is left out: the parser never reads it.
\<close>

record item =
  ityp :: itemType
  val :: string

definition eof :: char where
  "eof = CHR 0x00"

text \<open>
  The lexer state is kept as the unread bytes \<open>input[pos:]\<close> and \<open>treeDepth\<close>.
  \<open>next\<close> returns \<open>eof\<close> both at the end of the input and on a zero byte, which it
  consumes; a \<open>next\<close> followed by \<open>backup\<close> is a look at the head of \<open>rest\<close>.  Every
  state function is entered with \<open>start = pos\<close>, except the three that emit a single
  byte just read.
\<close>

record lexer =
  rest :: string
  treeDepth :: int

datatype stateFn =
  StLexBytes | StLexOpenParen | StLexCloseParen | StLexTree | StLexSemiColon | StLexProperty

type_synonym step = "item list \<times> stateFn option \<times> lexer"

definition errorf :: "string \<Rightarrow> item" where
  "errorf msg = \<lparr>ityp = itemError, val = msg\<rparr>"

definition eofInTreeMessage :: string where
  "eofInTreeMessage = ''lex: unexpected EOF; expected GameTree contents or ')'' @ [CHR 0x27]"

fun lexBytesLoop :: "int \<Rightarrow> string \<Rightarrow> step" where
  "lexBytesLoop dp [] = ([\<lparr>ityp = itemEOF, val = []\<rparr>], None, \<lparr>rest = [], treeDepth = dp\<rparr>)"
| "lexBytesLoop dp (n # cs) =
     (if n = CHR ''('' then ([], Some StLexOpenParen, \<lparr>rest = cs, treeDepth = dp\<rparr>)
      else if n = CHR '')'' then ([], Some StLexCloseParen, \<lparr>rest = cs, treeDepth = dp\<rparr>)
      else if n = eof then
        ([\<lparr>ityp = itemEOF, val = [n]\<rparr>], None, \<lparr>rest = cs, treeDepth = dp\<rparr>)
      else lexBytesLoop dp cs)"

definition lexBytes :: "lexer \<Rightarrow> step" where
  "lexBytes lx = lexBytesLoop (treeDepth lx) (rest lx)"

definition lexOpenParen :: "lexer \<Rightarrow> step" where
  "lexOpenParen lx =
     ([\<lparr>ityp = itemOpenParen, val = ''(''\<rparr>], Some StLexTree,
      lx\<lparr>treeDepth := treeDepth lx + 1\<rparr>)"

definition lexCloseParen :: "lexer \<Rightarrow> step" where
  "lexCloseParen lx =
     (let lx' = lx\<lparr>treeDepth := treeDepth lx - 1\<rparr>
      in if treeDepth lx' < 0 then ([errorf ''lex: too many right parentheses''], None, lx')
         else ([\<lparr>ityp = itemCloseParen, val = '')''\<rparr>],
               Some (if treeDepth lx' > 0 then StLexTree else StLexBytes), lx'))"

fun lexTreeLoop :: "int \<Rightarrow> string \<Rightarrow> step" where
  "lexTreeLoop dp [] = ([errorf eofInTreeMessage], None, \<lparr>rest = [], treeDepth = dp\<rparr>)"
| "lexTreeLoop dp (n # cs) =
     (if n = CHR '';'' then ([], Some StLexSemiColon, \<lparr>rest = cs, treeDepth = dp\<rparr>)
      else if n = CHR ''('' then ([], Some StLexOpenParen, \<lparr>rest = cs, treeDepth = dp\<rparr>)
      else if n = CHR '')'' then ([], Some StLexCloseParen, \<lparr>rest = cs, treeDepth = dp\<rparr>)
      else if n = eof then ([errorf eofInTreeMessage], None, \<lparr>rest = cs, treeDepth = dp\<rparr>)
      else lexTreeLoop dp cs)"

definition lexTree :: "lexer \<Rightarrow> step" where
  "lexTree lx = lexTreeLoop (treeDepth lx) (rest lx)"

definition lexSemiColon :: "lexer \<Rightarrow> step" where
  "lexSemiColon lx = ([\<lparr>ityp = itemSemiColon, val = '';''\<rparr>], Some StLexProperty, lx)"

fun consumeWhitespace :: "string \<Rightarrow> string" where
  "consumeWhitespace [] = []"
| "consumeWhitespace (n # cs) =
     (if n = CHR '' '' \<or> n = CHR 0x0A \<or> n = CHR 0x09 then consumeWhitespace cs else n # cs)"

text \<open>
  The outcome of \<open>IdentLoop\<close>: a fatal error, the dispatch to \<open>lexSemiColon\<close>, or the
  identifier read up to a \<open>[\<close> that is left unread.  \<open>acc\<close> is \<open>input[start:pos]\<close>.
\<close>

datatype identResult = IdentError string string | IdentSemiColon string | IdentBreak string string

fun identLoop :: "string \<Rightarrow> string \<Rightarrow> identResult" where
  "identLoop acc [] = IdentError ''lex: unexpected EOF; expected PropertyIdent'' []"
| "identLoop acc (n # cs) =
     (if n = eof then IdentError ''lex: unexpected EOF; expected PropertyIdent'' cs
      else if n = CHR '';'' then
        (if length (acc @ [n]) = 1 then IdentSemiColon cs
         else IdentError ''lex: unexpected ';'; expected PropertyIdent'' cs)
      else if n = CHR ''['' then IdentBreak acc (n # cs)
      else if of_char n < (65::nat) \<or> of_char n > (90::nat) then
        IdentError ''lex: PropertyIdent must be upper-case letters'' cs
      else identLoop (acc @ [n]) cs)"

text \<open>
  The outcome of \<open>ValueLoop\<close>: a fatal error, or the raw value text read up to an
  unescaped \<open>]\<close> that is left unread.  A backslash takes the next byte with it, whatever
  it is.
\<close>

datatype valueResult = ValueError string string | ValueBreak string string

fun valueLoop :: "string \<Rightarrow> string \<Rightarrow> valueResult" where
  "valueLoop acc [] = ValueError ''lex: unexpected EOF; expected PropertyValue'' []"
| "valueLoop acc (n # cs) =
     (if n = eof then ValueError ''lex: unexpected EOF; expected PropertyValue'' cs
      else if n = CHR 0x5C then
        (case cs of [] \<Rightarrow> valueLoop (acc @ [n]) [] | m # cs' \<Rightarrow> valueLoop (acc @ [n, m]) cs')
      else if n = CHR '']'' then ValueBreak acc (n # cs)
      else valueLoop (acc @ [n]) cs)"

definition lexProperty :: "lexer \<Rightarrow> step" where
  "lexProperty lx =
     (case identLoop [] (consumeWhitespace (rest lx)) of
        IdentError msg r \<Rightarrow> ([errorf msg], None, lx\<lparr>rest := r\<rparr>)
      | IdentSemiColon r \<Rightarrow> ([], Some StLexSemiColon, lx\<lparr>rest := r\<rparr>)
      | IdentBreak ident r \<Rightarrow>
          (let warning =
                 (if length ident > 2
                  then [\<lparr>ityp = itemWarning,
                         val = ''lex: Found PropertyIdent wider than 2 characters''\<rparr>]
                  else []);
               opening = [\<lparr>ityp = itemPropertyIdent, val = ident\<rparr>,
                          \<lparr>ityp = itemOpenBracket, val = take 1 r\<rparr>]
           in case valueLoop [] (drop 1 r) of
                ValueError msg r' \<Rightarrow> (warning @ opening @ [errorf msg], None, lx\<lparr>rest := r'\<rparr>)
              | ValueBreak v r' \<Rightarrow>
                  (let r'' = consumeWhitespace (drop 1 r')
                   in (warning @ opening @
                         [\<lparr>ityp = itemPropertyValue, val = v\<rparr>,
                          \<lparr>ityp = itemCloseBracket, val = take 1 r'\<rparr>],
                       Some (case r'' of
                               [] \<Rightarrow> StLexTree
                             | p # _ \<Rightarrow>
                                 if p = CHR '';'' \<or> p = CHR ''('' \<or> p = CHR '')'' \<or> p = eof
                                 then StLexTree else StLexProperty),
                       lx\<lparr>rest := r''\<rparr>))))"

definition stateStep :: "stateFn \<Rightarrow> lexer \<Rightarrow> step" where
  "stateStep st lx =
     (case st of
        StLexBytes \<Rightarrow> lexBytes lx
      | StLexOpenParen \<Rightarrow> lexOpenParen lx
      | StLexCloseParen \<Rightarrow> lexCloseParen lx
      | StLexTree \<Rightarrow> lexTree lx
      | StLexSemiColon \<Rightarrow> lexSemiColon lx
      | StLexProperty \<Rightarrow> lexProperty lx)"

text \<open>
  The measure under which \<open>run\<close> terminates: every state function either consumes input
  or is one of the three emitting states, which hand over without reading.
\<close>

definition runMeasure :: "stateFn \<times> lexer \<Rightarrow> nat" where
  "runMeasure x =
     2 * length (rest (snd x)) +
     (if fst x \<in> {StLexOpenParen, StLexCloseParen, StLexSemiColon} then 1 else 0)"

lemma lexBytesLoop_less:
  "lexBytesLoop dp r = (out, Some st, lx') \<Longrightarrow>
     length (rest lx') < length r \<and> st \<in> {StLexOpenParen, StLexCloseParen}"
  by (induction r) (auto split: if_splits)

lemma lexTreeLoop_less:
  "lexTreeLoop dp r = (out, Some st, lx') \<Longrightarrow>
     length (rest lx') < length r
     \<and> st \<in> {StLexOpenParen, StLexCloseParen, StLexSemiColon}"
  by (induction r) (auto split: if_splits)

lemma consumeWhitespace_le: "length (consumeWhitespace r) \<le> length r"
  by (induction r) auto

lemma identLoop_semi_less: "identLoop acc r = IdentSemiColon r' \<Longrightarrow> length r' < length r"
  by (induction acc r rule: identLoop.induct) (auto split: if_splits)

lemma identLoop_break: "identLoop acc r = IdentBreak ident r' \<Longrightarrow>
    length r' \<le> length r \<and> (\<exists>cs. r' = CHR ''['' # cs)"
  by (induction acc r rule: identLoop.induct) (auto split: if_splits)

lemma valueLoop_break: "valueLoop acc r = ValueBreak v r' \<Longrightarrow>
    length r' \<le> length r \<and> (\<exists>cs. r' = CHR '']'' # cs)"
  by (induction acc r rule: valueLoop.induct) (auto split: if_splits list.splits)

lemma lexProperty_less:
  assumes "lexProperty lx = (out, Some st, lx')"
  shows "length (rest lx') < length (rest lx)"
proof (cases "identLoop [] (consumeWhitespace (rest lx))")
  case (IdentError msg r)
  with assms show ?thesis by (simp add: lexProperty_def)
next
  case (IdentSemiColon r)
  from identLoop_semi_less[OF this] consumeWhitespace_le[of "rest lx"] assms IdentSemiColon
  show ?thesis by (auto simp: lexProperty_def)
next
  case (IdentBreak ident r)
  from identLoop_break[OF this] consumeWhitespace_le[of "rest lx"]
  obtain cs where r: "r = CHR ''['' # cs" and l1: "length r \<le> length (rest lx)" by auto
  show ?thesis
  proof (cases "valueLoop [] cs")
    case (ValueError msg r')
    with assms IdentBreak r show ?thesis by (simp add: lexProperty_def Let_def)
  next
    case (ValueBreak v r')
    from valueLoop_break[OF this] obtain cs' where r': "r' = CHR '']'' # cs'"
      and l2: "length r' \<le> length cs" by auto
    from assms IdentBreak r ValueBreak r'
    have "rest lx' = consumeWhitespace cs'" by (auto simp: lexProperty_def Let_def)
    with consumeWhitespace_le[of cs'] l1 l2 r r' show ?thesis by simp
  qed
qed

lemma stateStep_decreases:
  assumes "stateStep st lx = (out, Some st', lx')"
  shows "runMeasure (st', lx') < runMeasure (st, lx)"
proof (cases st)
  case StLexBytes
  with assms lexBytesLoop_less[of "treeDepth lx" "rest lx" out st' lx'] show ?thesis
    by (auto simp: stateStep_def lexBytes_def runMeasure_def)
next
  case StLexOpenParen
  with assms show ?thesis by (auto simp: stateStep_def lexOpenParen_def runMeasure_def)
next
  case StLexCloseParen
  with assms show ?thesis
    by (auto simp: stateStep_def lexCloseParen_def runMeasure_def Let_def split: if_splits)
next
  case StLexTree
  with assms lexTreeLoop_less[of "treeDepth lx" "rest lx" out st' lx'] show ?thesis
    by (auto simp: stateStep_def lexTree_def runMeasure_def)
next
  case StLexSemiColon
  with assms show ?thesis by (auto simp: stateStep_def lexSemiColon_def runMeasure_def)
next
  case StLexProperty
  with assms lexProperty_less[of lx out st' lx'] show ?thesis
    by (auto simp: stateStep_def runMeasure_def)
qed

text \<open>
  \<open>run\<close>: the state functions are applied until one returns no successor.  The items
  sent on the channel, in order, are the result; the channel is closed after the last.
\<close>

function run :: "stateFn \<Rightarrow> lexer \<Rightarrow> item list" where
  "run st lx =
     (case stateStep st lx of
        (out, None, lx') \<Rightarrow> out
      | (out, Some st', lx') \<Rightarrow> out @ run st' lx')"
  by pat_completeness auto
termination
  by (relation "measure runMeasure") (auto dest: stateStep_decreases[OF sym])

declare run.simps [simp del]

definition lex :: "string \<Rightarrow> item list" where
  "lex inp = run StLexBytes \<lparr>rest = inp, treeDepth = 0\<rparr>"

section \<open>The parser\<close>

text \<open>
  The errors of the parse package.  \<open>Errorf msg\<close> is an error with the message \<open>msg\<close>;
  \<open>UnexpectedItem it\<close> stands for \<open>fmt.Errorf("parse: unexpected item: %s", it)\<close>, with
  the item kept as it is instead of its formatted text; \<open>NilPropertyPanic\<close> is the nil
  pointer dereference of \<open>currentProperty.AddValue\<close> when no Property has been started.
\<close>

datatype perr = Errorf string | UnexpectedItem item | NilPropertyPanic

definition channelClosed :: perr where
  "channelClosed = Errorf ''parse: lexer channel closed unexpectedly''"

text \<open>The zero value of \<open>item\<close>, which \<open>lastItem\<close> holds before anything is received.\<close>

definition zeroItem :: item where
  "zeroItem = \<lparr>ityp = itemError, val = []\<rparr>"

text \<open>
  The parser functions receive from the channel \<open>l.items\<close>: here they take the items not
  yet received and return those left.  An empty list is the closed channel.

  \<open>parseNode\<close>: \<open>n\<close> is the node, \<open>cp\<close> is \<open>currentProperty\<close> and \<open>cpv\<close> is
  \<open>currentPropertyValue\<close> (\<^const>\<open>None\<close> for \<open>nil\<close>), \<open>lastItem\<close> the item received
  last.
\<close>

fun parseNodeLoop ::
  "Node \<Rightarrow> Property option \<Rightarrow> PropertyValue option \<Rightarrow> item \<Rightarrow> item list
     \<Rightarrow> Node \<times> item \<times> perr option \<times> item list" where
  "parseNodeLoop n cp cpv lastItem [] = (n, lastItem, Some channelClosed, [])"
| "parseNodeLoop n cp cpv lastItem (it # its) =
     (if ityp it = itemSemiColon \<or> ityp it = itemCloseParen \<or> ityp it = itemOpenParen then
        (case cp of
           Some p \<Rightarrow>
             (case AddProperty n p of
                (n', Some e) \<Rightarrow> (n', it, Some (Errorf e), its)
              | (n', None) \<Rightarrow> (n', it, None, its))
         | None \<Rightarrow> (n, it, None, its))
      else if ityp it = itemPropertyIdent then
        (case (case cp of Some p \<Rightarrow> AddProperty n p | None \<Rightarrow> (n, None)) of
           (n', Some e) \<Rightarrow> (n', it, Some (Errorf e), its)
         | (n', None) \<Rightarrow>
             (case NewProperty (val it) [] of
                (p, Some e) \<Rightarrow> (n', it, Some (Errorf e), its)
              | (p, None) \<Rightarrow> parseNodeLoop n' (Some p) cpv it its))
      else if ityp it = itemOpenBracket then
        parseNodeLoop n cp (Some NewEmptyPropertyValue) it its
      else if ityp it = itemPropertyValue then
        (case cpv of
           Some pv \<Rightarrow> parseNodeLoop n cp (Some (SetValue pv (val it))) it its
         | None \<Rightarrow>
             (n, it, Some (Errorf ''parse: got a property value without an opening [''), its))
      else if ityp it = itemCloseBracket then
        (case cpv of
           Some pv \<Rightarrow>
             (case cp of
                None \<Rightarrow> (n, it, Some NilPropertyPanic, its)
              | Some p \<Rightarrow>
                  (case AddValue p pv of
                     (p', Some e) \<Rightarrow> (n, it, Some (Errorf e), its)
                   | (p', None) \<Rightarrow> parseNodeLoop n (Some p') None it its))
         | None \<Rightarrow> (n, it, Some (Errorf ''parse: got a closing ] without an opening [''), its))
      else if ityp it = itemError then (n, it, Some (Errorf (val it)), its)
      else (n, it, Some (UnexpectedItem it), its))"

definition parseNode :: "item list \<Rightarrow> Node \<times> item \<times> perr option \<times> item list" where
  "parseNode its = parseNodeLoop NewNode None None zeroItem its"

lemma parseNodeLoop_less:
  "parseNodeLoop n cp cpv li its = (n', li', None, its') \<Longrightarrow> length its' < length its"
proof (induction its arbitrary: n cp cpv li)
  case Nil
  then show ?case by (simp add: channelClosed_def)
next
  case (Cons it its)
  have IH: "\<And>n cp cpv li. parseNodeLoop n cp cpv li its = (n', li', None, its')
              \<Longrightarrow> length its' < Suc (length its)"
    using Cons.IH by (meson less_SucI)
  from Cons.prems show ?case
    by (auto split: if_splits option.splits prod.splits dest: IH)
qed

lemma parseNodeLoop_le:
  "parseNodeLoop n cp cpv li its = (n', li', e, its') \<Longrightarrow> length its' \<le> length its"
proof (induction its arbitrary: n cp cpv li)
  case Nil
  then show ?case by simp
next
  case (Cons it its)
  have IH: "\<And>n cp cpv li. parseNodeLoop n cp cpv li its = (n', li', e, its')
              \<Longrightarrow> length its' \<le> Suc (length its)"
    using Cons.IH by (meson le_SucI)
  from Cons.prems show ?case
    by (auto split: if_splits option.splits prod.splits dest: IH)
qed

text \<open>The loop of \<open>parseSequence\<close>, entered with the first item received.\<close>

function parseSequenceLoop ::
  "Node list \<Rightarrow> item \<Rightarrow> item list \<Rightarrow> Node list \<times> item \<times> perr option \<times> item list" where
  "parseSequenceLoop sq lastItem its =
     (if ityp lastItem = itemSemiColon then
        (case parseNode its of
           (n, lastItem', Some e, its') \<Rightarrow> (sq, lastItem', Some e, its')
         | (n, lastItem', None, its') \<Rightarrow> parseSequenceLoop (sq @ [n]) lastItem' its')
      else if ityp lastItem = itemError then (sq, lastItem, Some (Errorf (val lastItem)), its)
      else if length sq = 0 then
        (sq, lastItem,
         Some (Errorf ''parse: the GameTree sequence must have at least one node in it''), its)
      else (sq, lastItem, None, its))"
  by pat_completeness auto
termination
  by (relation "measure (\<lambda>(sq, li, its). length its)")
     (auto simp: parseNode_def dest: parseNodeLoop_less[OF sym])

declare parseSequenceLoop.simps [simp del]

definition parseSequence :: "item list \<Rightarrow> Node list \<times> item \<times> perr option \<times> item list" where
  "parseSequence its =
     (case its of
        [] \<Rightarrow> ([], zeroItem, Some channelClosed, [])
      | lastItem # its' \<Rightarrow> parseSequenceLoop [] lastItem its')"

lemma parseSequenceLoop_le:
  "parseSequenceLoop sq li its = (sq', li', e, its') \<Longrightarrow> length its' \<le> length its"
proof (induction sq li its rule: parseSequenceLoop.induct)
  case (1 sq lastItem its)
  show ?case
  proof (cases "ityp lastItem = itemSemiColon")
    case False
    with "1.prems" show ?thesis by (auto simp: parseSequenceLoop.simps split: if_splits)
  next
    case True
    obtain n l2 e2 its2 where pn: "parseNode its = (n, l2, e2, its2)"
      by (cases "parseNode its") auto
    from pn have le: "length its2 \<le> length its"
      by (auto simp: parseNode_def dest: parseNodeLoop_le)
    show ?thesis
    proof (cases e2)
      case (Some a)
      with "1.prems" True pn le show ?thesis by (auto simp: parseSequenceLoop.simps)
    next
      case None
      with "1.prems" True pn have "parseSequenceLoop (sq @ [n]) l2 its2 = (sq', li', e, its')"
        by (simp add: parseSequenceLoop.simps[of sq])
      from "1.IH"[OF True pn[symmetric] refl refl _ this] None le show ?thesis by auto
    qed
  qed
qed

lemma parseSequence_less:
  "parseSequence its = (sq', li', None, its') \<Longrightarrow> length its' < length its"
  by (cases its) (auto simp: parseSequence_def channelClosed_def dest: parseSequenceLoop_le)

text \<open>
  \<open>parseGameTree\<close> and its loop over the subtrees, which is entered with the item that
  followed the sequence.  On an error the tree built so far is returned beside it.
\<close>

function (domintros)
  parseGameTree :: "item list \<Rightarrow> GameTree \<times> perr option \<times> item list" and
  parseGameTreeLoop :: "GameTree \<Rightarrow> item \<Rightarrow> item list \<Rightarrow> GameTree \<times> perr option \<times> item list"
where
  "parseGameTree its =
     (case parseSequence its of
        (sq, lastItem, Some e, its') \<Rightarrow> (NewGameTree, Some e, its')
      | (sq, lastItem, None, its') \<Rightarrow> parseGameTreeLoop (GameTree sq []) lastItem its')"
| "parseGameTreeLoop gt lastItem its =
     (if ityp lastItem = itemCloseParen then (gt, None, its)
      else if ityp lastItem = itemOpenParen then
        (case parseGameTree its of
           (subtree, Some e, its') \<Rightarrow> (gt, Some e, its')
         | (subtree, None, its') \<Rightarrow>
             (case its' of
                [] \<Rightarrow> (AddSubtree gt subtree, Some channelClosed, [])
              | lastItem' # its'' \<Rightarrow> parseGameTreeLoop (AddSubtree gt subtree) lastItem' its''))
      else if ityp lastItem = itemError then (gt, Some (Errorf (val lastItem)), its)
      else (gt, Some (UnexpectedItem lastItem), its))"
  by pat_completeness auto

lemma parseSequence_le:
  "parseSequence its = (sq', li', e, its') \<Longrightarrow> length its' \<le> length its"
  by (cases its) (auto simp: parseSequence_def dest: parseSequenceLoop_le)

lemma parseGameTree_le_partial:
  "parseGameTree_parseGameTreeLoop_dom (Inl its) \<Longrightarrow>
     length (snd (snd (parseGameTree its))) \<le> length its"
  "parseGameTree_parseGameTreeLoop_dom (Inr (gt, li, its2)) \<Longrightarrow>
     length (snd (snd (parseGameTreeLoop gt li its2))) \<le> length its2"
proof (induction its and gt li its2 rule: parseGameTree_parseGameTreeLoop.pinduct)
  case (1 its)
  obtain sq l1 e1 its1 where ps: "parseSequence its = (sq, l1, e1, its1)"
    by (cases "parseSequence its") auto
  show ?case
  proof (cases e1)
    case None
    from parseSequence_less[OF ps[unfolded None]] "1.IH"[OF ps[symmetric] refl refl None]
    show ?thesis using ps None "1.hyps" by (simp add: parseGameTree.psimps)
  next
    case (Some e)
    from parseSequence_le[OF ps] show ?thesis
      using ps Some "1.hyps" by (simp add: parseGameTree.psimps)
  qed
next
  case (2 gt lastItem its)
  show ?case
  proof (cases "ityp lastItem = itemOpenParen")
    case False
    then show ?thesis using "2.hyps" by (simp add: parseGameTreeLoop.psimps)
  next
    case True
    obtain st e1 its1 where pg: "parseGameTree its = (st, e1, its1)"
      by (cases "parseGameTree its") auto
    have le1: "length its1 \<le> length its" using "2.IH"(1) True pg by simp
    show ?thesis
    proof (cases e1)
      case (Some e)
      then show ?thesis using "2.hyps" True pg le1 by (simp add: parseGameTreeLoop.psimps)
    next
      case None
      show ?thesis
      proof (cases its1)
        case Nil
        then show ?thesis using "2.hyps" True pg None by (simp add: parseGameTreeLoop.psimps)
      next
        case (Cons a its2)
        have "length (snd (snd (parseGameTreeLoop (AddSubtree gt st) a its2))) \<le> length its2"
          using "2.IH"(2) True pg None Cons by simp
        then show ?thesis using "2.hyps" True pg None Cons le1
          by (simp add: parseGameTreeLoop.psimps)
      qed
    qed
  qed
qed

termination parseGameTree
  apply (relation "measure (\<lambda>x. case x of Inl its \<Rightarrow> 2 * length its + 1
                                         | Inr (gt, li, its) \<Rightarrow> 2 * length its + 2)")
  subgoal by simp
  subgoal by (auto dest: parseSequence_less[OF sym])
  subgoal by simp
  subgoal for gt lastItem its
    using parseGameTree_le_partial(1)[of its] by (cases "parseGameTree its") auto
  done

declare parseGameTree.simps [simp del] parseGameTreeLoop.simps [simp del]

lemma parseGameTree_total:
  "parseGameTree_parseGameTreeLoop_dom (Inl its)"
  "parseGameTree_parseGameTreeLoop_dom (Inr (gt, li, its2))"
proof (induction its and gt li its2 rule: parseGameTree_parseGameTreeLoop.induct)
  case (1 its)
  show ?case by (rule parseGameTree_parseGameTreeLoop.domintros) (use 1 in auto)
next
  case (2 gt lastItem its)
  show ?case by (rule parseGameTree_parseGameTreeLoop.domintros) (use 2 in auto)
qed

lemma parseGameTree_le:
  "parseGameTree its = (gt, e, its') \<Longrightarrow> length its' \<le> length its"
  using parseGameTree_le_partial(1)[OF parseGameTree_total(1), of its] by simp

text \<open>
  \<open>parseCollection\<close>: the loop over the top-level items.  The named result
  \<open>collection\<close> is returned as it stands at every \<open>return\<close>, also beside an error.
\<close>

function parseCollectionLoop :: "GameTree list \<Rightarrow> item list \<Rightarrow> GameTree list \<times> perr option" where
  "parseCollectionLoop collection [] = (collection, Some channelClosed)"
| "parseCollectionLoop collection (lastItem # its) =
     (if ityp lastItem = itemOpenParen then
        (case parseGameTree its of
           (gt, Some e, its') \<Rightarrow> (collection, Some e)
         | (gt, None, its') \<Rightarrow> parseCollectionLoop (collection @ [gt]) its')
      else if ityp lastItem = itemEOF then (collection, None)
      else if ityp lastItem = itemError then (collection, Some (Errorf (val lastItem)))
      else (collection, Some (Errorf ''parse: only GameTrees are allowed at the top level'')))"
  by pat_completeness auto
termination
  by (relation "measure (\<lambda>(c, its). length its)")
     (auto dest: parseGameTree_le[OF sym])

declare parseCollectionLoop.simps [simp del]

definition parseCollection :: "item list \<Rightarrow> GameTree list \<times> perr option" where
  "parseCollection its = parseCollectionLoop [] its"

text \<open>
  The search for the encoding declaration at the head of \<open>Parse\<close>.  \<open>afterKey key data\<close>
  is \<open>data[key_i + len(key):]\<close> for the first index \<open>key_i\<close> of \<open>key\<close> in \<open>data\<close>
  (\<open>bytes.Index\<close>), if there is one.
\<close>

fun afterKey :: "string \<Rightarrow> string \<Rightarrow> string option" where
  "afterKey key [] = (if key = [] then Some [] else None)"
| "afterKey key (c # cs) =
     (if take (length key) (c # cs) = key then Some (drop (length key) (c # cs))
      else afterKey key cs)"

definition findEncodingName :: "string \<Rightarrow> string" where
  "findEncodingName data =
     (case afterKey ''CA['' data of
        None \<Rightarrow> ''''
      | Some after \<Rightarrow>
          if CHR '']'' \<in> set after then takeWhile (\<lambda>c. c \<noteq> CHR '']'') after else [])"

text \<open>
  \<open>strings.EqualFold(s, "UTF-8")\<close>: the letters U, T and F fold only with their ASCII
  lower-case forms.
\<close>

definition upperASCII :: "char \<Rightarrow> char" where
  "upperASCII c =
     (if (97::nat) \<le> of_char c \<and> of_char c \<le> (122::nat) then char_of (of_char c - (32::nat))
      else c)"

definition EqualFoldUTF8 :: "string \<Rightarrow> bool" where
  "EqualFoldUTF8 s = (map upperASCII s = ''UTF-8'')"

definition encodingWarnings :: "string \<Rightarrow> string list" where
  "encodingWarnings data =
     (let found = findEncodingName data;
          w1 = (if found = ''''
                then [''Did not find a CA property. Assuming the UTF-8 encoding''] else []);
          encodingName = (if found = '''' then ''UTF-8'' else found);
          w2 = (if \<not> EqualFoldUTF8 encodingName
                then [''The encoding specified in the CA property ('' @ encodingName @
                      '') is not currently supported. Going to try to use UTF-8 instead'']
                else [])
      in w1 @ w2)"

text \<open>\<open>Parse\<close> returns the collection, the warnings and the error.\<close>

definition Parse :: "string \<Rightarrow> GameTree list \<times> string list \<times> perr option" where
  "Parse data =
     (case parseCollection (lex data) of
        (collection, err) \<Rightarrow> (collection, encodingWarnings data, err))"

section \<open>Properties of the validator\<close>

lemma SplitAcc_nonempty: "SplitAcc c cs acc s \<noteq> []"
  by (induction c cs acc s rule: SplitAcc.induct) auto

lemma Split_nonempty: "sep \<noteq> [] \<Longrightarrow> Split s sep \<noteq> []"
  by (cases sep) (auto simp: Split_def SplitAcc_nonempty)

lemma errorCount_all: "(errorCount es = length es) = (\<forall>e\<in>set es. e \<noteq> None)"
  unfolding errorCount_def by (induction es) (auto simp: le_imp_less_Suc[THEN less_imp_neq])

lemma firstError_hd: "es \<noteq> [] \<Longrightarrow> \<forall>e\<in>set es. e \<noteq> None \<Longrightarrow> firstError es = hd es"
  by (cases es) auto

lemma firstError_None: "(firstError es = None) = (\<forall>e\<in>set es. e = None)"
  by (induction es rule: firstError.induct) auto

text \<open>
  What it means, in the words of the specification, for one alternative of a grammar to
  validate a value: the value has as many colon-separated parts as the alternative has
  atoms, and every part passes its atom.
\<close>

definition alternativeValidates :: "string \<Rightarrow> string \<Rightarrow> bool" where
  "alternativeValidates alt v =
     list_all2 (\<lambda>atom part. validatePropertyValuePart atom part = None)
       (Split alt '' : '') (Split v '':'')"

lemma validateParts_all2:
  "length cs = length vs \<Longrightarrow>
     (validateParts cs vs = None) =
     list_all2 (\<lambda>atom part. validatePropertyValuePart atom part = None) cs vs"
  by (induction cs vs rule: list_induct2) (auto split: option.splits)

lemma validateAlternative_iff:
  "(validateAlternative v alt = None) = alternativeValidates alt v"
  unfolding validateAlternative_def alternativeValidates_def Let_def
  by (auto simp: validateParts_all2 dest: list_all2_lengthD)

text \<open>
  C6: a value is valid against a grammar exactly when at least one alternative validates
  it, and when every alternative fails the failure of the first alternative is returned.
  For the identity SZ (\<open>number | number : number\<close>) the values 19 and 19:19 are Valid and
  abc is Invalid.
\<close>

theorem C6_any_alternative_validates:
  "(validatePropertyValue pv = None \<longleftrightarrow>
      (\<exists>alt\<in>set (Split (pvValidatorName pv) '' | ''). alternativeValidates alt (Value pv)))
   \<and> ((\<forall>alt\<in>set (Split (pvValidatorName pv) '' | ''). \<not> alternativeValidates alt (Value pv))
        \<longrightarrow> validatePropertyValue pv
              = validateAlternative (Value pv) (hd (Split (pvValidatorName pv) '' | ''))
            \<and> validatePropertyValue pv \<noteq> None)
   \<and> Validated (fst (NewProperty ''SZ'' [NewPropertyValue ''19''])) = Valid
   \<and> Validated (fst (NewProperty ''SZ'' [NewPropertyValue ''19:19''])) = Valid
   \<and> Validated (fst (NewProperty ''SZ'' [NewPropertyValue ''abc''])) = Invalid"
proof -
  let ?alts = "Split (pvValidatorName pv) '' | ''"
  let ?errors = "map (validateAlternative (Value pv)) ?alts"
  have ne: "?alts \<noteq> []" by (rule Split_nonempty) simp
  have vp: "validatePropertyValue pv
            = (if \<forall>e\<in>set ?errors. e \<noteq> None then firstError ?errors else None)"
    by (simp add: validatePropertyValue_def Let_def errorCount_all)
  have allfail: "(\<forall>e\<in>set ?errors. e \<noteq> None)
                 = (\<forall>alt\<in>set ?alts. \<not> alternativeValidates alt (Value pv))"
    by (simp add: validateAlternative_iff[symmetric])
  have a: "validatePropertyValue pv = None \<longleftrightarrow>
             (\<exists>alt\<in>set ?alts. alternativeValidates alt (Value pv))"
  proof (cases "\<forall>e\<in>set ?errors. e \<noteq> None")
    case True
    with ne have "firstError ?errors = hd ?errors" by (intro firstError_hd) auto
    moreover have "hd ?errors \<noteq> None" using True ne by (cases ?alts) auto
    ultimately show ?thesis using True vp allfail by auto
  next
    case False
    then show ?thesis using vp allfail by auto
  qed
  have b: "(\<forall>alt\<in>set ?alts. \<not> alternativeValidates alt (Value pv))
        \<longrightarrow> validatePropertyValue pv = validateAlternative (Value pv) (hd ?alts)
            \<and> validatePropertyValue pv \<noteq> None"
  proof
    assume fail: "\<forall>alt\<in>set ?alts. \<not> alternativeValidates alt (Value pv)"
    then have all: "\<forall>e\<in>set ?errors. e \<noteq> None" using allfail by simp
    with ne have "firstError ?errors = hd ?errors" by (intro firstError_hd) auto
    then have "validatePropertyValue pv = validateAlternative (Value pv) (hd ?alts)"
      using vp all ne by (simp add: hd_map)
    moreover have "validatePropertyValue pv \<noteq> None" using a fail by simp
    ultimately show "validatePropertyValue pv = validateAlternative (Value pv) (hd ?alts)
            \<and> validatePropertyValue pv \<noteq> None" by simp
  qed
  have c1: "Validated (fst (NewProperty ''SZ'' [NewPropertyValue ''19''])) = Valid"
    by code_simp
  have c2: "Validated (fst (NewProperty ''SZ'' [NewPropertyValue ''19:19''])) = Valid"
    by code_simp
  have c3: "Validated (fst (NewProperty ''SZ'' [NewPropertyValue ''abc''])) = Invalid"
    by code_simp
  from a b c1 c2 c3 show ?thesis by blast
qed

theorem C6_any_alternative_validates_witness:
  "\<not> (\<exists>alt\<in>set (Split ''number | number : number'' '' | ''). alternativeValidates alt ''abc'')
   \<and> validatePropertyValue \<lparr>Value = ''abc'', pvValidatorName = ''number | number : number''\<rparr>
       = Some ''Number type Property Value expected positive or negative integer''
   \<and> (\<exists>alt\<in>set (Split ''number | number : number'' '' | ''). alternativeValidates alt ''19:19'')
   \<and> validatePropertyValue \<lparr>Value = ''19:19'', pvValidatorName = ''number | number : number''\<rparr>
       = None"
proof -
  have h1: "\<forall>alt\<in>set (Split ''number | number : number'' '' | '').
              \<not> alternativeValidates alt ''abc''"
    by code_simp
  have h2: "\<exists>alt\<in>set (Split ''number | number : number'' '' | '').
              alternativeValidates alt ''19:19''"
    by code_simp
  have e: "validateAlternative ''abc'' (hd (Split ''number | number : number'' '' | ''))
           = Some ''Number type Property Value expected positive or negative integer''"
    by code_simp
  from C6_any_alternative_validates
         [of "\<lparr>Value = ''abc'', pvValidatorName = ''number | number : number''\<rparr>"]
       C6_any_alternative_validates
         [of "\<lparr>Value = ''19:19'', pvValidatorName = ''number | number : number''\<rparr>"]
       h1 h2 e
  show ?thesis by simp
qed

text \<open>
  C5: the \<open>real\<close> atom accepts the text 1a2, digits separated by a byte that is not a
  dot, because the dot of its pattern is not escaped.  It accepts 1.2 and rejects 1.
  and abc as intended.
\<close>

theorem C5_real_accepts_any_separator:
  "validatePropertyValuePart ''real'' ''1a2'' = None
   \<and> validatePropertyValuePart ''real'' ''1.2'' = None
   \<and> validatePropertyValuePart ''real'' ''1.'' \<noteq> None
   \<and> validatePropertyValuePart ''real'' ''abc'' \<noteq> None"
  by code_simp

text \<open>
  C10: \<open>AddValue\<close> on a not-a-list Property that holds one value returns an error and
  sets the status to Invalid, yet the new value has been appended: the Property has two
  values, the second with the text of the rejected one, and its serialisation ends with
  that value.
\<close>

theorem C10_rejected_value_is_kept:
  assumes "listiness p = propertyNotList" and "length (Values p) = 1"
  shows "snd (AddValue p pv) = Some (''Property '' @ Identity p @ '' can only have one value'')
         \<and> Validated (fst (AddValue p pv)) = Invalid
         \<and> length (Values (fst (AddValue p pv))) = 2
         \<and> butlast (Values (fst (AddValue p pv))) = Values p
         \<and> Value (last (Values (fst (AddValue p pv)))) = Value pv
         \<and> fst (AddValue p pv) \<noteq> p
         \<and> Property_String (fst (AddValue p pv)) = Property_String p @ PropertyValue_String pv"
proof -
  let ?pv' = "if pvValidatorName pv = ''unknown''
              then pv\<lparr>pvValidatorName := validatorName p\<rparr> else pv"
  have r: "AddValue p pv =
           (p\<lparr>Values := Values p @ [?pv'], Validated := Invalid\<rparr>,
            Some (''Property '' @ Identity p @ '' can only have one value''))"
    using assms by (simp add: AddValue_def validatePropertyValues_def)
  have ne: "p\<lparr>Values := Values p @ [?pv'], Validated := Invalid\<rparr> \<noteq> p"
  proof
    assume "p\<lparr>Values := Values p @ [?pv'], Validated := Invalid\<rparr> = p"
    then have "Values (p\<lparr>Values := Values p @ [?pv'], Validated := Invalid\<rparr>) = Values p"
      by simp
    then show False by simp
  qed
  show ?thesis using assms ne unfolding r
    by (simp add: Property_String_def PropertyValue_String_def)
qed

theorem C10_rejected_value_is_kept_witness:
  "listiness (fst (NewProperty ''C'' [NewPropertyValue ''a''])) = propertyNotList
   \<and> length (Values (fst (NewProperty ''C'' [NewPropertyValue ''a'']))) = 1
   \<and> Validated (fst (AddValue (fst (NewProperty ''C'' [NewPropertyValue ''a'']))
                               (NewPropertyValue ''b''))) = Invalid
   \<and> Property_String (fst (AddValue (fst (NewProperty ''C'' [NewPropertyValue ''a'']))
                                      (NewPropertyValue ''b''))) = ''C[a][b]''"
proof -
  have h1: "listiness (fst (NewProperty ''C'' [NewPropertyValue ''a''])) = propertyNotList"
    by code_simp
  have h2: "length (Values (fst (NewProperty ''C'' [NewPropertyValue ''a'']))) = 1"
    by code_simp
  have s: "Property_String (fst (NewProperty ''C'' [NewPropertyValue ''a''])) = ''C[a]''"
    by code_simp
  have t: "PropertyValue_String (NewPropertyValue ''b'') = ''[b]''"
    by code_simp
  from C10_rejected_value_is_kept[OF h1 h2, of "NewPropertyValue ''b''"] h1 h2 s t
  show ?thesis by simp
qed


section \<open>Properties of the parser\<close>

text \<open>
  C8: the inputs \<open>()\<close> and \<open>  (  )  \<close> both fail with the error that a GameTree sequence
  must have at least one node, and the returned collection is empty.
\<close>

theorem C8_empty_sequence_is_fatal:
  "fst (Parse ''()'') = []
   \<and> snd (snd (Parse ''()''))
       = Some (Errorf ''parse: the GameTree sequence must have at least one node in it'')
   \<and> fst (Parse ''  (  )  '') = []
   \<and> snd (snd (Parse ''  (  )  '')) = snd (snd (Parse ''()''))"
  by code_simp

text \<open>
  C2: on the input \<open>(;DEF[])\<close> the lexer emits a warning item and goes on to the
  identifier, but \<open>parseNode\<close> has no case for a warning item: the parse stops with the
  error for an unexpected item, no GameTree is returned and the lexer's warning is not in
  the list of warnings.
\<close>

theorem C2_warning_item_aborts_parse:
  "lex ''(;DEF[])'' =
     [\<lparr>ityp = itemOpenParen, val = ''(''\<rparr>, \<lparr>ityp = itemSemiColon, val = '';''\<rparr>,
      \<lparr>ityp = itemWarning, val = ''lex: Found PropertyIdent wider than 2 characters''\<rparr>,
      \<lparr>ityp = itemPropertyIdent, val = ''DEF''\<rparr>, \<lparr>ityp = itemOpenBracket, val = ''[''\<rparr>,
      \<lparr>ityp = itemPropertyValue, val = ''''\<rparr>, \<lparr>ityp = itemCloseBracket, val = '']''\<rparr>,
      \<lparr>ityp = itemCloseParen, val = '')''\<rparr>, \<lparr>ityp = itemEOF, val = ''''\<rparr>]
   \<and> Parse ''(;DEF[])'' =
       ([], [''Did not find a CA property. Assuming the UTF-8 encoding''],
        Some (UnexpectedItem
               \<lparr>ityp = itemWarning,
                val = ''lex: Found PropertyIdent wider than 2 characters''\<rparr>))"
  by code_simp

section \<open>Values without a colon, and the status of a Property\<close>

lemma SplitAcc_no_sep: "c \<notin> set s \<Longrightarrow> SplitAcc c cs acc s = [rev acc @ s]"
  by (induction s arbitrary: acc) auto

lemma Split_no_colon: "CHR '':'' \<notin> set v \<Longrightarrow> Split v '':'' = [v]"
  by (simp add: Split_def SplitAcc_no_sep)

lemma Split_unknown: "Split ''unknown'' '' | '' = [''unknown'']"
  "Split ''unknown'' '' : '' = [''unknown'']"
  by (simp_all add: Split_def)

lemma Split_move: "Split ''move'' '' | '' = [''move'']" "Split ''move'' '' : '' = [''move'']"
  by (simp_all add: Split_def)

lemma validate_unknown_no_colon:
  "CHR '':'' \<notin> set v \<Longrightarrow>
     validatePropertyValue \<lparr>Value = v, pvValidatorName = ''unknown''\<rparr> = None"
  by (simp add: validatePropertyValue_def validateAlternative_def Split_unknown Split_no_colon
      errorCount_def validatePropertyValuePart_def)

lemma deferred_prefix: "HasPrefix deferredMessage ''validation deferred:''"
  by (simp add: HasPrefix_def deferredMessage_def)

lemma validate_move_no_colon:
  "CHR '':'' \<notin> set v \<Longrightarrow>
     validatePropertyValue \<lparr>Value = v, pvValidatorName = ''move''\<rparr> = Some deferredMessage"
  by (simp add: validatePropertyValue_def validateAlternative_def Split_move Split_no_colon
      errorCount_def validatePropertyValuePart_def)

text \<open>
  The two outcomes of a value that do not make it valid: it fails its grammar, or its
  validation is deferred.
\<close>

definition valueFails :: "PropertyValue \<Rightarrow> bool" where
  "valueFails pv =
     (case validatePropertyValue pv of
        Some e \<Rightarrow> \<not> HasPrefix e ''validation deferred:''
      | None \<Rightarrow> False)"

definition valueDeferred :: "PropertyValue \<Rightarrow> bool" where
  "valueDeferred pv =
     (case validatePropertyValue pv of
        Some e \<Rightarrow> HasPrefix e ''validation deferred:''
      | None \<Rightarrow> False)"

lemma validateLoop_status:
  "fst (validateLoop st errors pvs) =
     (if \<exists>pv\<in>set pvs. valueDeferred pv then ValidationDeferred else st)"
  by (induction pvs arbitrary: st errors)
     (auto simp: valueDeferred_def split: option.splits)

lemma validateLoop_errors:
  "(firstError (snd (validateLoop st errors pvs)) = None) =
     (firstError errors = None \<and> \<not> (\<exists>pv\<in>set pvs. valueFails pv))"
  by (induction pvs arbitrary: st errors)
     (auto simp: valueFails_def firstError_None split: option.splits)

lemma validatePropertyValues_status:
  "Validated (fst (validatePropertyValues p)) =
     (if listiness p = propertyNotList \<and> length (Values p) > 1 then Invalid
      else if \<exists>pv\<in>set (Values p). valueFails pv then Invalid
      else if \<exists>pv\<in>set (Values p). valueDeferred pv then ValidationDeferred
      else Valid)"
proof -
  obtain st errors where vl: "validateLoop NotValidated [] (Values p) = (st, errors)"
    by (cases "validateLoop NotValidated [] (Values p)") auto
  from validateLoop_status[of NotValidated "[]" "Values p"] vl
  have st: "st = (if \<exists>pv\<in>set (Values p). valueDeferred pv
                  then ValidationDeferred else NotValidated)" by simp
  from validateLoop_errors[of NotValidated "[]" "Values p"] vl
  have er: "(firstError errors = None) = (\<not> (\<exists>pv\<in>set (Values p). valueFails pv))" by simp
  show ?thesis
  proof (cases "firstError errors")
    case None
    with er st vl show ?thesis by (simp add: validatePropertyValues_def)
  next
    case (Some e)
    with er st vl show ?thesis by (auto simp: validatePropertyValues_def)
  qed
qed

lemma validatePropertyValues_no_error:
  "\<not> (listiness p = propertyNotList \<and> length (Values p) > 1) \<Longrightarrow>
     \<not> (\<exists>pv\<in>set (Values p). valueFails pv) \<Longrightarrow> snd (validatePropertyValues p) = None"
proof -
  assume a: "\<not> (listiness p = propertyNotList \<and> length (Values p) > 1)"
    and b: "\<not> (\<exists>pv\<in>set (Values p). valueFails pv)"
  obtain st errors where vl: "validateLoop NotValidated [] (Values p) = (st, errors)"
    by (cases "validateLoop NotValidated [] (Values p)") auto
  from validateLoop_errors[of NotValidated "[]" "Values p"] vl b
  have "firstError errors = None" by simp
  with a vl show ?thesis by (auto simp: validatePropertyValues_def)
qed

text \<open>
  C3 as the claim states it fails: the identity XX is not in the registry, and a single
  value with the text a:b makes the Property Invalid with an error, because the text is
  split at the colon into two parts while the grammar \<open>unknown\<close> has one atom.  A
  value that already carries another grammar keeps it, and is checked against it.
\<close>

theorem C3_unknown_with_colon_counterexample:
  "propertyTypeMap ''XX'' = None
   \<and> Validated (fst (NewProperty ''XX'' [NewPropertyValue ''a:b''])) = Invalid
   \<and> snd (NewProperty ''XX'' [NewPropertyValue ''a:b''])
       = Some ''not enough parts in composition''
   \<and> Validated (fst (AddValue (fst (NewProperty ''XX'' [])) (NewPropertyValue ''a:b'')))
       = Invalid
   \<and> snd (AddValue (fst (NewProperty ''XX'' [])) (NewPropertyValue ''a:b''))
       = Some ''not enough parts in composition''
   \<and> Validated (fst (NewProperty ''XX'' [\<lparr>Value = ''abc'', pvValidatorName = ''number''\<rparr>]))
       = Invalid"
  by code_simp

text \<open>
  C3, amended: for an identity absent from the registry and any sequence of values with
  texts that contain no colon, each value made by \<open>NewPropertyValue\<close>, the Property is
  Valid and no error is returned, both when the values are given to \<open>NewProperty\<close> and
  when a further such value is attached with \<open>AddValue\<close>.
\<close>

theorem C3_unknown_without_colon_valid:
  assumes "propertyTypeMap identity = None"
    and "\<forall>v\<in>set texts. CHR '':'' \<notin> set v"
    and "CHR '':'' \<notin> set w"
  shows "Validated (fst (NewProperty identity (map NewPropertyValue texts))) = Valid
         \<and> snd (NewProperty identity (map NewPropertyValue texts)) = None
         \<and> Values (fst (NewProperty identity (map NewPropertyValue texts)))
             = map NewPropertyValue texts
         \<and> Validated (fst (AddValue (fst (NewProperty identity (map NewPropertyValue texts)))
                                     (NewPropertyValue w))) = Valid
         \<and> snd (AddValue (fst (NewProperty identity (map NewPropertyValue texts)))
                         (NewPropertyValue w)) = None"
proof -
  let ?p0 = "\<lparr>Type = PropertyTypeUnknown, Identity = identity,
              Values = map NewPropertyValue texts, Description = ''unknown'',
              Validated = NotValidated, validatorName = ''unknown'',
              listiness = propertyUnknownList\<rparr>"
  have ok: "\<And>ts. \<forall>v\<in>set ts. CHR '':'' \<notin> set v \<Longrightarrow>
              \<not> (\<exists>pv\<in>set (map NewPropertyValue ts). valueFails pv)
              \<and> \<not> (\<exists>pv\<in>set (map NewPropertyValue ts). valueDeferred pv)"
    by (auto simp: valueFails_def valueDeferred_def NewPropertyValue_def
        validate_unknown_no_colon)
  have np: "NewProperty identity (map NewPropertyValue texts) = validatePropertyValues ?p0"
    using assms(1) by (simp add: NewProperty_def)
  have fstp: "\<And>q. fst (validatePropertyValues q) = q\<lparr>Validated := Validated (fst (validatePropertyValues q))\<rparr>"
    by (auto simp: validatePropertyValues_def split: prod.splits option.splits)
  have v1: "Validated (fst (validatePropertyValues ?p0)) = Valid"
    using ok[OF assms(2)] by (simp add: validatePropertyValues_status)
  have e1: "snd (validatePropertyValues ?p0) = None"
    using ok[OF assms(2)] by (intro validatePropertyValues_no_error) auto
  have p1: "fst (validatePropertyValues ?p0) = ?p0\<lparr>Validated := Valid\<rparr>"
    using fstp[of ?p0] v1 by simp
  let ?p2 = "?p0\<lparr>Validated := Valid, Values := map NewPropertyValue (texts @ [w])\<rparr>"
  have av: "AddValue (?p0\<lparr>Validated := Valid\<rparr>) (NewPropertyValue w)
            = validatePropertyValues ?p2"
    by (simp add: AddValue_def NewPropertyValue_def)
  have all2: "\<forall>v\<in>set (texts @ [w]). CHR '':'' \<notin> set v" using assms(2,3) by auto
  have v2: "Validated (fst (validatePropertyValues ?p2)) = Valid"
    using ok[OF all2] by (simp add: validatePropertyValues_status)
  have e2: "snd (validatePropertyValues ?p2) = None"
    using ok[OF all2] by (intro validatePropertyValues_no_error) auto
  show ?thesis unfolding np p1 av using v1 e1 v2 e2 p1 by simp
qed

theorem C3_unknown_without_colon_valid_witness:
  "propertyTypeMap ''XX'' = None
   \<and> \<not> (\<exists>v\<in>set [''abc'', ''''] . CHR '':'' \<in> set v)
   \<and> CHR '':'' \<notin> set ''12''
   \<and> Validated (fst (NewProperty ''XX'' (map NewPropertyValue [''abc'', '''']))) = Valid
   \<and> snd (AddValue (fst (NewProperty ''XX'' (map NewPropertyValue [''abc'', ''''])))
                   (NewPropertyValue ''12'')) = None"
proof -
  have h1: "propertyTypeMap ''XX'' = None" by code_simp
  have h2: "\<forall>v\<in>set [''abc'', '''']. CHR '':'' \<notin> set v" by simp
  have h3: "CHR '':'' \<notin> set ''12''" by simp
  from C3_unknown_without_colon_valid[OF h1 h2 h3] h1 h2 h3 show ?thesis by simp
qed

text \<open>
  C7 as the claim states it fails: the identity B with the single non-empty value a:b is
  Invalid, not ValidationDeferred.  The identity C (not-a-list, grammar \<open>text\<close>) with
  the two values a and b is Invalid although neither value fails its grammar.
\<close>

theorem C7_move_with_colon_counterexample:
  "Validated (fst (NewProperty ''B'' [NewPropertyValue ''a:b''])) = Invalid
   \<and> Validated (fst (NewProperty ''B'' [NewPropertyValue ''a:b''])) \<noteq> ValidationDeferred
   \<and> Validated (fst (AddValue (fst (NewProperty ''B'' [])) (NewPropertyValue ''a:b'')))
       = Invalid
   \<and> Validated (fst (NewProperty ''C'' [NewPropertyValue ''a'', NewPropertyValue ''b'']))
       = Invalid
   \<and> validatePropertyValue \<lparr>Value = ''a'', pvValidatorName = ''text''\<rparr> = None
   \<and> validatePropertyValue \<lparr>Value = ''b'', pvValidatorName = ''text''\<rparr> = None"
  by code_simp

text \<open>
  C7, amended: unless the Property is not-a-list and holds more than one value (then it
  is Invalid), validation sets the status to Invalid if any value fails its grammar,
  otherwise to ValidationDeferred if the validation of any value is deferred, otherwise to
  Valid.  The identity B with any single non-empty value that contains no colon has the
  status ValidationDeferred, whether the value is given to \<open>NewProperty\<close> or attached
  with \<open>AddValue\<close>.
\<close>

theorem C7_status_of_revalidation:
  "Validated (fst (validatePropertyValues p)) =
     (if listiness p = propertyNotList \<and> length (Values p) > 1 then Invalid
      else if \<exists>pv\<in>set (Values p). valueFails pv then Invalid
      else if \<exists>pv\<in>set (Values p). valueDeferred pv then ValidationDeferred
      else Valid)
   \<and> (v \<noteq> [] \<and> CHR '':'' \<notin> set v \<longrightarrow>
        Validated (fst (NewProperty ''B'' [NewPropertyValue v])) = ValidationDeferred
        \<and> snd (NewProperty ''B'' [NewPropertyValue v]) = None
        \<and> Validated (fst (AddValue (fst (NewProperty ''B'' [])) (NewPropertyValue v)))
            = ValidationDeferred
        \<and> snd (AddValue (fst (NewProperty ''B'' [])) (NewPropertyValue v)) = None)"
proof -
  have B: "propertyTypeMap ''B'' = Some (mk ''Black'' PropertyTypeMove ''move'' propertyNotList)"
    by (simp add: propertyTypeMap_def propertyTypeTable_def)
  let ?q = "\<lparr>Type = PropertyTypeMove, Identity = ''B'',
             Values = [\<lparr>Value = v, pvValidatorName = ''move''\<rparr>], Description = ''Black'',
             Validated = NotValidated, validatorName = ''move'',
             listiness = propertyNotList\<rparr>"
  have np: "NewProperty ''B'' [NewPropertyValue v] = validatePropertyValues ?q"
    by (simp add: NewProperty_def B mk_def NewPropertyValue_def)
  have np0: "fst (NewProperty ''B'' []) = ?q\<lparr>Values := [], Validated := Valid\<rparr>"
    by (simp add: NewProperty_def B mk_def validatePropertyValues_def)
  have av: "AddValue (?q\<lparr>Values := [], Validated := Valid\<rparr>) (NewPropertyValue v)
            = validatePropertyValues (?q\<lparr>Validated := Valid\<rparr>)"
    by (simp add: AddValue_def NewPropertyValue_def)
  have second: "Validated (fst (validatePropertyValues (?q\<lparr>Validated := st\<rparr>)))
                  = ValidationDeferred
                \<and> snd (validatePropertyValues (?q\<lparr>Validated := st\<rparr>)) = None"
    if "CHR '':'' \<notin> set v" for st
  proof -
    have d: "valueDeferred \<lparr>Value = v, pvValidatorName = ''move''\<rparr>"
      and f: "\<not> valueFails \<lparr>Value = v, pvValidatorName = ''move''\<rparr>"
      using that
      by (simp_all add: valueDeferred_def valueFails_def validate_move_no_colon deferred_prefix)
    have "snd (validatePropertyValues (?q\<lparr>Validated := st\<rparr>)) = None"
      using f by (intro validatePropertyValues_no_error) auto
    then show ?thesis using d f by (simp add: validatePropertyValues_status)
  qed
  from second[of NotValidated] second[of Valid]
  have "v \<noteq> [] \<and> CHR '':'' \<notin> set v \<longrightarrow>
        Validated (fst (NewProperty ''B'' [NewPropertyValue v])) = ValidationDeferred
        \<and> snd (NewProperty ''B'' [NewPropertyValue v]) = None
        \<and> Validated (fst (AddValue (fst (NewProperty ''B'' [])) (NewPropertyValue v)))
            = ValidationDeferred
        \<and> snd (AddValue (fst (NewProperty ''B'' [])) (NewPropertyValue v)) = None"
    unfolding np np0 av by simp
  with validatePropertyValues_status[of p] show ?thesis by blast
qed

theorem C7_status_of_revalidation_witness:
  "Validated (fst (validatePropertyValues
      \<lparr>Type = PropertyTypeMove, Identity = ''B'',
       Values = [\<lparr>Value = ''aa'', pvValidatorName = ''move''\<rparr>], Description = ''Black'',
       Validated = NotValidated, validatorName = ''move'',
       listiness = propertyNotList\<rparr>)) = ValidationDeferred
   \<and> ''aa'' \<noteq> [] \<and> CHR '':'' \<notin> set ''aa''
   \<and> Validated (fst (NewProperty ''B'' [NewPropertyValue ''aa''])) = ValidationDeferred
   \<and> snd (AddValue (fst (NewProperty ''B'' [])) (NewPropertyValue ''aa'')) = None"
proof -
  have d: "valueDeferred \<lparr>Value = ''aa'', pvValidatorName = ''move''\<rparr>" by code_simp
  have f: "\<not> valueFails \<lparr>Value = ''aa'', pvValidatorName = ''move''\<rparr>" by code_simp
  from C7_status_of_revalidation
         [of "\<lparr>Type = PropertyTypeMove, Identity = ''B'',
               Values = [\<lparr>Value = ''aa'', pvValidatorName = ''move''\<rparr>],
               Description = ''Black'', Validated = NotValidated, validatorName = ''move'',
               listiness = propertyNotList\<rparr>" "''aa''"] d f
  show ?thesis by simp
qed

section \<open>Properties of the lexer\<close>

definition upperRun :: "string \<Rightarrow> bool" where
  "upperRun s = (\<forall>c\<in>set s. (65::nat) \<le> of_char c \<and> of_char c \<le> (90::nat))"

lemma identLoop_upper:
  "identLoop acc r = IdentBreak ident r' \<Longrightarrow> upperRun acc \<Longrightarrow> upperRun ident"
  by (induction acc r rule: identLoop.induct) (auto simp: upperRun_def split: if_splits)

lemma lexBytesLoop_idents:
  "lexBytesLoop dp r = (out, nx, lx') \<Longrightarrow> it \<in> set out \<Longrightarrow> ityp it \<noteq> itemPropertyIdent"
  by (induction r) (auto split: if_splits)

lemma lexTreeLoop_idents:
  "lexTreeLoop dp r = (out, nx, lx') \<Longrightarrow> it \<in> set out \<Longrightarrow> ityp it \<noteq> itemPropertyIdent"
  by (induction r) (auto simp: errorf_def split: if_splits)

lemma lexProperty_idents:
  "lexProperty lx = (out, nx, lx') \<Longrightarrow> it \<in> set out \<Longrightarrow> ityp it = itemPropertyIdent
     \<Longrightarrow> upperRun (val it)"
  by (auto simp: lexProperty_def Let_def errorf_def upperRun_def
        split: identResult.splits valueResult.splits if_splits dest!: identLoop_upper)

lemma stateStep_idents:
  "stateStep st lx = (out, nx, lx') \<Longrightarrow> it \<in> set out \<Longrightarrow> ityp it = itemPropertyIdent
     \<Longrightarrow> upperRun (val it)"
  by (cases st)
     (auto simp: stateStep_def lexBytes_def lexTree_def lexOpenParen_def lexCloseParen_def
        lexSemiColon_def errorf_def Let_def
        dest: lexBytesLoop_idents lexTreeLoop_idents lexProperty_idents split: if_splits)

lemma run_idents:
  "it \<in> set (run st lx) \<Longrightarrow> ityp it = itemPropertyIdent \<Longrightarrow> upperRun (val it)"
proof (induction st lx rule: run.induct)
  case (1 st lx)
  obtain out nx lx' where s: "stateStep st lx = (out, nx, lx')"
    by (cases "stateStep st lx") auto
  show ?case
  proof (cases nx)
    case None
    with s "1.prems" show ?thesis by (auto simp: run.simps[of st lx] dest: stateStep_idents)
  next
    case (Some st')
    with s "1.prems" have "it \<in> set out \<or> it \<in> set (run st' lx')"
      by (auto simp: run.simps[of st lx])
    then show ?thesis
    proof
      assume "it \<in> set out"
      with s "1.prems" show ?thesis by (auto dest: stateStep_idents)
    next
      assume "it \<in> set (run st' lx')"
      from "1.IH"[OF s[symmetric] refl _ this "1.prems"(2)] Some show ?thesis by simp
    qed
  qed
qed

lemma identLoop_offending:
  "upperRun pre \<Longrightarrow> \<not> ((65::nat) \<le> of_char c \<and> of_char c \<le> (90::nat)) \<Longrightarrow>
   c \<noteq> CHR ''['' \<Longrightarrow> \<not> (acc @ pre = [] \<and> c = CHR '';'') \<Longrightarrow>
   \<exists>msg r'. identLoop acc (pre @ c # cs) = IdentError msg r'"
proof (induction pre arbitrary: acc)
  case Nil
  then show ?case by (auto simp: eof_def)
next
  case (Cons a pre)
  from Cons.prems(1) have a: "(65::nat) \<le> of_char a \<and> of_char a \<le> (90::nat)"
    and u: "upperRun pre"
    by (auto simp: upperRun_def)
  from a have "a \<noteq> eof" "a \<noteq> CHR '';''" "a \<noteq> CHR ''[''" by (auto simp: eof_def)
  moreover from Cons.IH[OF u Cons.prems(2,3), of "acc @ [a]"] obtain msg r' where
    "identLoop (acc @ [a]) (pre @ c # cs) = IdentError msg r'" by auto
  ultimately show ?case using a by auto
qed

text \<open>
  C9 as the claim states it fails: on \<open>(;AB[aa][bb])\<close> the second value is lexed by a
  fresh round of \<open>lexProperty\<close>, whose identifier run is empty, and an identifier item
  with the empty text is emitted.
\<close>

theorem C9_empty_identifier_counterexample:
  "\<lparr>ityp = itemPropertyIdent, val = []\<rparr> \<in> set (lex ''(;AB[aa][bb])'')"
  by code_simp

text \<open>
  C9, amended: every property-identifier item emitted by the lexer consists of upper-case
  ASCII letters only, possibly none (\<open>[A-Z]*\<close>).  A byte outside A-Z in an identifier
  run, other than the terminating \<open>[\<close> and other than a \<open>;\<close> at the very start of the
  run (which opens a new node), makes \<open>lexProperty\<close> emit a single error item and halt
  the lexer, so that no identifier item is emitted.
\<close>

theorem C9_identifier_items_uppercase:
  "(\<forall>it\<in>set (lex inp). ityp it = itemPropertyIdent \<longrightarrow> upperRun (val it))
   \<and> (consumeWhitespace (rest lx) = pre @ c # cs \<and> upperRun pre
        \<and> \<not> ((65::nat) \<le> of_char c \<and> of_char c \<le> (90::nat))
        \<and> c \<noteq> CHR ''['' \<and> \<not> (pre = [] \<and> c = CHR '';'')
      \<longrightarrow> (\<exists>msg. run StLexProperty lx = [errorf msg]))"
proof -
  have a: "\<forall>it\<in>set (lex inp). ityp it = itemPropertyIdent \<longrightarrow> upperRun (val it)"
    unfolding lex_def using run_idents by blast
  have b: "\<exists>msg. run StLexProperty lx = [errorf msg]"
    if h: "consumeWhitespace (rest lx) = pre @ c # cs" "upperRun pre"
      "\<not> ((65::nat) \<le> of_char c \<and> of_char c \<le> (90::nat))"
      "c \<noteq> CHR ''[''" "\<not> (pre = [] \<and> c = CHR '';'')"
  proof -
    from identLoop_offending[OF h(2,3,4), of "[]" cs] h(5) obtain msg r' where
      "identLoop [] (pre @ c # cs) = IdentError msg r'" by auto
    with h(1) have "lexProperty lx = ([errorf msg], None, lx\<lparr>rest := r'\<rparr>)"
      by (simp add: lexProperty_def)
    then have "run StLexProperty lx = [errorf msg]"
      by (simp add: run.simps[of StLexProperty lx] stateStep_def)
    then show ?thesis by blast
  qed
  from a b show ?thesis by blast
qed

theorem C9_identifier_items_uppercase_witness:
  "\<lparr>ityp = itemPropertyIdent, val = ''AB''\<rparr> \<in> set (lex ''(;AB[aa])'')
   \<and> upperRun ''AB''
   \<and> consumeWhitespace '' Ab[x])'' = ''A'' @ CHR ''b'' # ''[x])''
   \<and> (\<exists>msg. run StLexProperty \<lparr>rest = '' Ab[x])'', treeDepth = 1\<rparr> = [errorf msg])"
proof -
  have m: "\<lparr>ityp = itemPropertyIdent, val = ''AB''\<rparr> \<in> set (lex ''(;AB[aa])'')"
    by code_simp
  have w: "consumeWhitespace '' Ab[x])'' = ''A'' @ CHR ''b'' # ''[x])''" by simp
  have u: "upperRun ''A''" by (simp add: upperRun_def)
  from C9_identifier_items_uppercase
         [of "''(;AB[aa])''" "\<lparr>rest = '' Ab[x])'', treeDepth = 1\<rparr>" "''A''" "CHR ''b''" "''[x])''"]
       m w u
  show ?thesis by auto
qed

section \<open>The parser reads a prefix of the items\<close>

text \<open>
  Each parser function that succeeds has received a prefix of the items it was given, and
  returns the same result when what follows that prefix is replaced.  The loops take the
  item received last and the items to come; \<open>seqLoop\<close> and \<open>gtLoop\<close> present them
  as one list.
\<close>


definition nodeItem :: "itemType \<Rightarrow> bool" where
  "nodeItem ty = (ty = itemPropertyIdent \<or> ty = itemOpenBracket \<or> ty = itemPropertyValue \<or> ty = itemCloseBracket)"

definition nodeEnd :: "itemType \<Rightarrow> bool" where
  "nodeEnd ty = (ty = itemSemiColon \<or> ty = itemOpenParen \<or> ty = itemCloseParen)"

lemma parseNodeLoop_step:
  "parseNodeLoop n cp cpv li (it # its) = (n', li', None, its') \<Longrightarrow>
     (nodeEnd (ityp it) \<and> li' = it \<and> its' = its
        \<and> (\<forall>X. parseNodeLoop n cp cpv li (it # X) = (n', it, None, X)))
     \<or> (nodeItem (ityp it)
        \<and> (\<exists>n2 cp2 cpv2. \<forall>X. parseNodeLoop n cp cpv li (it # X) = parseNodeLoop n2 cp2 cpv2 it X))"
  by (auto simp: nodeItem_def nodeEnd_def split: if_splits option.splits prod.splits)

lemma parseNodeLoop_frame:
  "parseNodeLoop n cp cpv li its = (n', li', None, its') \<Longrightarrow>
     \<exists>consumed. its = consumed @ li' # its'
        \<and> (\<forall>it\<in>set consumed. nodeItem (ityp it)) \<and> nodeEnd (ityp li')
        \<and> (\<forall>tail. parseNodeLoop n cp cpv li (consumed @ li' # tail) = (n', li', None, tail))"
proof (induction its arbitrary: n cp cpv li)
  case Nil
  then show ?case by (simp add: channelClosed_def)
next
  case (Cons it its)
  from parseNodeLoop_step[OF Cons.prems] show ?case
  proof
    assume "nodeEnd (ityp it) \<and> li' = it \<and> its' = its
        \<and> (\<forall>X. parseNodeLoop n cp cpv li (it # X) = (n', it, None, X))"
    then show ?thesis by (intro exI[of _ "[]"]) auto
  next
    assume a: "nodeItem (ityp it)
        \<and> (\<exists>n2 cp2 cpv2. \<forall>X. parseNodeLoop n cp cpv li (it # X) = parseNodeLoop n2 cp2 cpv2 it X)"
    then obtain n2 cp2 cpv2 where
      st: "\<And>X. parseNodeLoop n cp cpv li (it # X) = parseNodeLoop n2 cp2 cpv2 it X" by blast
    with Cons.prems have "parseNodeLoop n2 cp2 cpv2 it its = (n', li', None, its')" by simp
    from Cons.IH[OF this] obtain c where c: "its = c @ li' # its'"
      "\<forall>it\<in>set c. nodeItem (ityp it)" "nodeEnd (ityp li')"
      "\<forall>tail. parseNodeLoop n2 cp2 cpv2 it (c @ li' # tail) = (n', li', None, tail)" by blast
    show ?thesis using a c st by (intro exI[of _ "it # c"]) auto
  qed
qed

definition seqLoop :: "Node list \<Rightarrow> item list \<Rightarrow> Node list \<times> item \<times> perr option \<times> item list" where
  "seqLoop sq s = parseSequenceLoop sq (hd s) (tl s)"

definition treeItem :: "itemType \<Rightarrow> bool" where
  "treeItem ty = (nodeItem ty \<or> nodeEnd ty)"

lemma parseSequenceLoop_frame:
  "parseSequenceLoop sq li its = (sq', li', None, its') \<Longrightarrow>
     \<exists>consumed. li # its = consumed @ li' # its'
        \<and> (\<forall>it\<in>set consumed. treeItem (ityp it))
        \<and> ityp li' \<noteq> itemSemiColon \<and> ityp li' \<noteq> itemError
        \<and> (\<forall>tail. seqLoop sq (consumed @ li' # tail) = (sq', li', None, tail))"
proof (induction sq li its rule: parseSequenceLoop.induct)
  case (1 sq li its)
  show ?case
  proof (cases "ityp li = itemSemiColon")
    case False
    with "1.prems" have "li' = li" "its' = its" "sq' = sq" "sq \<noteq> []" "ityp li \<noteq> itemError"
      by (auto simp: parseSequenceLoop.simps[of sq li its] split: if_splits)
    with False show ?thesis
      by (intro exI[of _ "[]"]) (auto simp: seqLoop_def parseSequenceLoop.simps[of sq li])
  next
    case True
    obtain n l2 e2 its2 where pn: "parseNode its = (n, l2, e2, its2)"
      by (cases "parseNode its") auto
    from "1.prems" True pn have e2: "e2 = None"
      by (cases e2) (auto simp: parseSequenceLoop.simps[of sq li its])
    with "1.prems" True pn have rec: "parseSequenceLoop (sq @ [n]) l2 its2 = (sq', li', None, its')"
      by (simp add: parseSequenceLoop.simps[of sq li its])
    from "1.IH"[OF True pn[symmetric] refl refl e2 rec] obtain c2 where c2:
      "l2 # its2 = c2 @ li' # its'" "\<forall>it\<in>set c2. treeItem (ityp it)"
      "ityp li' \<noteq> itemSemiColon" "ityp li' \<noteq> itemError"
      "\<forall>tail. seqLoop (sq @ [n]) (c2 @ li' # tail) = (sq', li', None, tail)" by blast
    from pn e2 parseNodeLoop_frame[of NewNode None None zeroItem its n l2 its2]
    obtain c1 where c1: "its = c1 @ l2 # its2" "\<forall>it\<in>set c1. nodeItem (ityp it)"
      "nodeEnd (ityp l2)"
      "\<forall>tail. parseNode (c1 @ l2 # tail) = (n, l2, None, tail)"
      by (auto simp: parseNode_def)
    have hd2: "\<And>tail. c2 @ li' # tail = l2 # tl (c2 @ li' # tail)"
      using c2(1) by (cases c2) auto
    have fr: "seqLoop sq ((li # c1 @ c2) @ li' # tail) = (sq', li', None, tail)" for tail
    proof -
      have "seqLoop sq ((li # c1 @ c2) @ li' # tail)
            = parseSequenceLoop sq li (c1 @ l2 # tl (c2 @ li' # tail))"
        using hd2[of tail] by (simp add: seqLoop_def)
      also have "\<dots> = parseSequenceLoop (sq @ [n]) l2 (tl (c2 @ li' # tail))"
        using True c1(4) by (simp add: parseSequenceLoop.simps[of sq li])
      also have "\<dots> = seqLoop (sq @ [n]) (c2 @ li' # tail)"
        using hd2[of tail] by (simp add: seqLoop_def) (metis list.sel(1) list.sel(3))
      finally show ?thesis using c2(5) by simp
    qed
    have "li # its = (li # c1 @ c2) @ li' # its'" using c1(1) c2(1) by simp
    moreover have "\<forall>it\<in>set (li # c1 @ c2). treeItem (ityp it)"
      using True c1(2) c2(2) by (auto simp: treeItem_def nodeEnd_def)
    ultimately show ?thesis using c2(3,4) fr by blast
  qed
qed

definition gtLoop :: "GameTree \<Rightarrow> item list \<Rightarrow> GameTree \<times> perr option \<times> item list" where
  "gtLoop g s = parseGameTreeLoop g (hd s) (tl s)"

lemma parseSequence_seqLoop: "s \<noteq> [] \<Longrightarrow> parseSequence s = seqLoop [] s"
  by (cases s) (auto simp: parseSequence_def seqLoop_def)

lemma parseSequence_frame:
  assumes "parseSequence its = (sq, l1, None, its1)"
  shows "\<exists>c. its = c @ l1 # its1 \<and> (\<forall>it\<in>set c. treeItem (ityp it))
           \<and> ityp l1 \<noteq> itemSemiColon \<and> ityp l1 \<noteq> itemError
           \<and> (\<forall>tail. parseSequence (c @ l1 # tail) = (sq, l1, None, tail))"
proof (cases its)
  case Nil
  with assms show ?thesis by (simp add: parseSequence_def channelClosed_def)
next
  case (Cons x xs)
  with assms have "parseSequenceLoop [] x xs = (sq, l1, None, its1)"
    by (simp add: parseSequence_def)
  from parseSequenceLoop_frame[OF this] Cons show ?thesis
    by (auto simp: parseSequence_seqLoop)
qed

lemma parseGameTree_frame:
  "parseGameTree its = (gt, None, its') \<Longrightarrow>
     \<exists>c. its = c @ its' \<and> c \<noteq> [] \<and> (\<forall>it\<in>set c. treeItem (ityp it))
        \<and> (\<forall>tail. parseGameTree (c @ tail) = (gt, None, tail))"
  "parseGameTreeLoop g li its2 = (gt2, None, its2') \<Longrightarrow>
     \<exists>c. li # its2 = c @ its2' \<and> c \<noteq> [] \<and> (\<forall>it\<in>set c. treeItem (ityp it))
        \<and> (\<forall>tail. gtLoop g (c @ tail) = (gt2, None, tail))"
proof (induction its and g li its2 arbitrary: gt its' and gt2 its2'
       rule: parseGameTree_parseGameTreeLoop.induct)
  case (1 its)
  obtain sq l1 e1 its1 where ps: "parseSequence its = (sq, l1, e1, its1)"
    by (cases "parseSequence its") auto
  from "1.prems" ps have e1: "e1 = None"
    by (cases e1) (auto simp: parseGameTree.simps[of its])
  with "1.prems" ps have lp: "parseGameTreeLoop (GameTree sq []) l1 its1 = (gt, None, its')"
    by (simp add: parseGameTree.simps[of its])
  from "1.IH"[OF ps[symmetric] refl refl e1 lp] obtain c2 where c2:
    "l1 # its1 = c2 @ its'" "c2 \<noteq> []" "\<forall>it\<in>set c2. treeItem (ityp it)"
    "\<forall>tail. gtLoop (GameTree sq []) (c2 @ tail) = (gt, None, tail)" by blast
  from parseSequence_frame[OF ps[unfolded e1]] obtain c1 where c1:
    "its = c1 @ l1 # its1" "\<forall>it\<in>set c1. treeItem (ityp it)"
    "\<forall>tail. parseSequence (c1 @ l1 # tail) = (sq, l1, None, tail)" by blast
  have hd2: "\<And>tail. c2 @ tail = l1 # tl (c2 @ tail)" using c2(1,2) by (cases c2) auto
  have fr: "parseGameTree ((c1 @ c2) @ tail) = (gt, None, tail)" for tail
  proof -
    have "parseSequence (c1 @ c2 @ tail) = (sq, l1, None, tl (c2 @ tail))"
      using hd2[of tail] c1(3) by metis
    then have "parseGameTree ((c1 @ c2) @ tail)
               = parseGameTreeLoop (GameTree sq []) l1 (tl (c2 @ tail))"
      by (simp add: parseGameTree.simps[of "c1 @ c2 @ tail"])
    also have "\<dots> = gtLoop (GameTree sq []) (c2 @ tail)"
      using hd2[of tail] by (simp add: gtLoop_def) (metis list.sel(1) list.sel(3))
    finally show ?thesis using c2(4) by simp
  qed
  have "its = (c1 @ c2) @ its'" using c1(1) c2(1) by simp
  moreover have "c1 @ c2 \<noteq> []" using c2(2) by simp
  moreover have "\<forall>it\<in>set (c1 @ c2). treeItem (ityp it)" using c1(2) c2(3) by auto
  ultimately show ?case using fr by blast
next
  case (2 g li its)
  show ?case
  proof (cases "ityp li = itemCloseParen")
    case True
    with "2.prems" have "gt2 = g" "its2' = its"
      by (auto simp: parseGameTreeLoop.simps[of g li its])
    with True show ?thesis
      by (intro exI[of _ "[li]"])
         (auto simp: gtLoop_def parseGameTreeLoop.simps[of g li] treeItem_def nodeEnd_def)
  next
    case False
    with "2.prems" have op: "ityp li = itemOpenParen"
      by (auto simp: parseGameTreeLoop.simps[of g li its] split: if_splits)
    obtain sub e its1 where pg: "parseGameTree its = (sub, e, its1)"
      by (cases "parseGameTree its") auto
    from "2.prems" False op pg have e: "e = None"
      by (cases e) (auto simp: parseGameTreeLoop.simps[of g li its])
    from "2.prems" False op pg e obtain l2 its2 where its1: "its1 = l2 # its2"
      by (cases its1) (auto simp: parseGameTreeLoop.simps[of g li its] channelClosed_def)
    from "2.prems" False op pg e its1
    have rec: "parseGameTreeLoop (AddSubtree g sub) l2 its2 = (gt2, None, its2')"
      by (simp add: parseGameTreeLoop.simps[of g li its])
    from "2.IH"(1)[OF False op pg[unfolded e]] obtain c1 where c1:
      "its = c1 @ its1" "\<forall>it\<in>set c1. treeItem (ityp it)"
      "\<forall>tail. parseGameTree (c1 @ tail) = (sub, None, tail)" by blast
    from "2.IH"(2)[OF False op pg[symmetric] refl e its1 rec] obtain c2 where c2:
      "l2 # its2 = c2 @ its2'" "c2 \<noteq> []" "\<forall>it\<in>set c2. treeItem (ityp it)"
      "\<forall>tail. gtLoop (AddSubtree g sub) (c2 @ tail) = (gt2, None, tail)" by blast
    have hd2: "\<And>tail. c2 @ tail = l2 # tl (c2 @ tail)" using c2(1,2) by (cases c2) auto
    have fr: "gtLoop g ((li # c1 @ c2) @ tail) = (gt2, None, tail)" for tail
    proof -
      have "gtLoop g ((li # c1 @ c2) @ tail) = parseGameTreeLoop g li (c1 @ c2 @ tail)"
        by (simp add: gtLoop_def)
      also have "\<dots> = parseGameTreeLoop (AddSubtree g sub) l2 (tl (c2 @ tail))"
        using False op c1(3) hd2[of tail]
        by (simp add: parseGameTreeLoop.simps[of g li]) (metis list.simps(5))
      also have "\<dots> = gtLoop (AddSubtree g sub) (c2 @ tail)"
        using hd2[of tail] by (simp add: gtLoop_def) (metis list.sel(1) list.sel(3))
      finally show ?thesis using c2(4) by simp
    qed
    have "li # its = (li # c1 @ c2) @ its2'" using c1(1) c2(1) its1 by simp
    moreover have "\<forall>it\<in>set (li # c1 @ c2). treeItem (ityp it)"
      using op c1(2) c2(3) by (auto simp: treeItem_def nodeEnd_def)
    ultimately show ?thesis using fr by blast
  qed
qed

definition eofItem :: item where
  "eofItem = \<lparr>ityp = itemEOF, val = []\<rparr>"

lemma parseCollectionLoop_frame:
  "parseCollectionLoop c its = (c', r) \<Longrightarrow>
     \<exists>consumed remaining. its = consumed @ remaining
        \<and> (\<forall>it\<in>set consumed. treeItem (ityp it))
        \<and> (\<forall>tail. parseCollectionLoop c (consumed @ tail) = parseCollectionLoop c' tail)
        \<and> (\<forall>c0. parseCollectionLoop c0 remaining = (c0, r))
        \<and> (r = None \<longrightarrow> (\<exists>e rest'. remaining = e # rest' \<and> ityp e = itemEOF))"
proof (induction c its arbitrary: c' r rule: parseCollectionLoop.induct)
  case (1 c)
  then show ?case
    by (intro exI[of _ "[]"]) (auto simp: parseCollectionLoop.simps(1))
next
  case (2 c li its)
  show ?case
  proof (cases "ityp li = itemOpenParen")
    case False
    with "2.prems" have "c' = c"
      by (auto simp: parseCollectionLoop.simps(2) split: if_splits)
    with False "2.prems" show ?thesis
      by (intro exI[of _ "[]"] exI[of _ "li # its"])
         (auto simp: parseCollectionLoop.simps(2) split: if_splits)
  next
    case True
    obtain gt e its1 where pg: "parseGameTree its = (gt, e, its1)"
      by (cases "parseGameTree its") auto
    show ?thesis
    proof (cases e)
      case (Some err)
      with "2.prems" True pg have "c' = c" "r = Some err"
        by (auto simp: parseCollectionLoop.simps(2))
      with True pg Some show ?thesis
        by (intro exI[of _ "[]"] exI[of _ "li # its"])
           (auto simp: parseCollectionLoop.simps(2))
    next
      case None
      with "2.prems" True pg have rec: "parseCollectionLoop (c @ [gt]) its1 = (c', r)"
        by (simp add: parseCollectionLoop.simps(2))
      from "2.IH"[OF True pg[symmetric] refl None rec] obtain c2 rm where c2:
        "its1 = c2 @ rm" "\<forall>it\<in>set c2. treeItem (ityp it)"
        "\<forall>tail. parseCollectionLoop (c @ [gt]) (c2 @ tail) = parseCollectionLoop c' tail"
        "\<forall>c0. parseCollectionLoop c0 rm = (c0, r)"
        "r = None \<longrightarrow> (\<exists>e rest'. rm = e # rest' \<and> ityp e = itemEOF)" by blast
      from parseGameTree_frame(1)[OF pg[unfolded None]] obtain c1 where c1:
        "its = c1 @ its1" "\<forall>it\<in>set c1. treeItem (ityp it)"
        "\<forall>tail. parseGameTree (c1 @ tail) = (gt, None, tail)" by blast
      have fr: "parseCollectionLoop c ((li # c1 @ c2) @ tail) = parseCollectionLoop c' tail"
        for tail
        using True c1(3) c2(3) by (simp add: parseCollectionLoop.simps(2))
      have "li # its = (li # c1 @ c2) @ rm" using c1(1) c2(1) by simp
      moreover have "\<forall>it\<in>set (li # c1 @ c2). treeItem (ityp it)"
        using True c1(2) c2(2) by (auto simp: treeItem_def nodeEnd_def)
      ultimately show ?thesis using fr c2(4,5) by blast
    qed
  qed
qed




section \<open>The shape of the lexer's output\<close>

text \<open>
  \<open>untok\<close> is the text of a list of items.  \<open>follows a b\<close> says that an item of
  type \<open>b\<close> may come directly after one of type \<open>a\<close> in the output of the lexer, and
  \<open>wellVal\<close> that a punctuation item carries its own byte.
\<close>
definition untok :: "item list \<Rightarrow> string" where
  "untok ts = concat (map val ts)"

lemma untok_simps [simp]: "untok [] = []" "untok (tk # ts) = val tk @ untok ts"
  "untok (xs @ ys) = untok xs @ untok ys"
  by (simp_all add: untok_def)

fun follows :: "itemType \<Rightarrow> itemType \<Rightarrow> bool" where
  "follows itemOpenParen b = (b \<in> {itemSemiColon, itemOpenParen, itemCloseParen, itemError})"
| "follows itemCloseParen b =
     (b \<in> {itemSemiColon, itemOpenParen, itemCloseParen, itemError, itemEOF})"
| "follows itemSemiColon b =
     (b \<in> {itemSemiColon, itemPropertyIdent, itemWarning, itemError})"
| "follows itemWarning b = (b = itemPropertyIdent)"
| "follows itemPropertyIdent b = (b = itemOpenBracket)"
| "follows itemOpenBracket b = (b \<in> {itemPropertyValue, itemError})"
| "follows itemPropertyValue b = (b = itemCloseBracket)"
| "follows itemCloseBracket b =
     (b \<in> {itemPropertyIdent, itemWarning, itemSemiColon, itemOpenParen, itemCloseParen,
            itemError})"
| "follows itemError b = False"
| "follows itemEOF b = False"

definition wellVal :: "item \<Rightarrow> bool" where
  "wellVal it =
     ((ityp it = itemSemiColon \<longrightarrow> val it = '';'') \<and> (ityp it = itemOpenParen \<longrightarrow> val it = ''('')
      \<and> (ityp it = itemCloseParen \<longrightarrow> val it = '')'') \<and> (ityp it = itemOpenBracket \<longrightarrow> val it = ''['')
      \<and> (ityp it = itemCloseBracket \<longrightarrow> val it = '']''))"

definition tokOK :: "item list \<Rightarrow> bool" where
  "tokOK ts = (successively (\<lambda>a b. follows (ityp a) (ityp b)) ts \<and> (\<forall>it\<in>set ts. wellVal it))"

text \<open>The item types with which the output of a state can begin.\<close>
fun firstTypes :: "stateFn \<Rightarrow> itemType set" where
  "firstTypes StLexBytes = {itemEOF, itemOpenParen, itemCloseParen, itemError}"
| "firstTypes StLexOpenParen = {itemOpenParen}"
| "firstTypes StLexCloseParen = {itemCloseParen, itemError}"
| "firstTypes StLexTree = {itemSemiColon, itemOpenParen, itemCloseParen, itemError}"
| "firstTypes StLexSemiColon = {itemSemiColon}"
| "firstTypes StLexProperty = {itemError, itemSemiColon, itemWarning, itemPropertyIdent}"

lemma run_emitting:
  "run StLexOpenParen lx = \<lparr>ityp = itemOpenParen, val = ''(''\<rparr> # run StLexTree (lx\<lparr>treeDepth := treeDepth lx + 1\<rparr>)"
  "run StLexSemiColon lx = \<lparr>ityp = itemSemiColon, val = '';''\<rparr> # run StLexProperty lx"
  "run StLexCloseParen lx =
     (if treeDepth lx - 1 < 0 then [errorf ''lex: too many right parentheses'']
      else \<lparr>ityp = itemCloseParen, val = '')''\<rparr> #
           run (if treeDepth lx - 1 > 0 then StLexTree else StLexBytes) (lx\<lparr>treeDepth := treeDepth lx - 1\<rparr>))"
  by (simp_all add: run.simps[of StLexOpenParen] run.simps[of StLexSemiColon] run.simps[of StLexCloseParen]
       stateStep_def lexOpenParen_def lexSemiColon_def lexCloseParen_def Let_def)

lemma lexBytesLoop_cases:
  "lexBytesLoop dp r = (out, nx, lx') \<Longrightarrow>
     (nx = None \<and> (\<exists>v. out = [\<lparr>ityp = itemEOF, val = v\<rparr>]))
     \<or> (out = [] \<and> treeDepth lx' = dp \<and> (nx = Some StLexOpenParen \<or> nx = Some StLexCloseParen))"
  by (induction r) (auto split: if_splits)

lemma lexTreeLoop_cases:
  "lexTreeLoop dp r = (out, nx, lx') \<Longrightarrow>
     (nx = None \<and> out = [errorf eofInTreeMessage])
     \<or> (out = [] \<and> treeDepth lx' = dp \<and>
         (nx = Some StLexOpenParen \<or> nx = Some StLexCloseParen \<or> nx = Some StLexSemiColon))"
  by (induction r) (auto split: if_splits)


definition warningFor :: "string \<Rightarrow> item list" where
  "warningFor ident =
     (if length ident > 2
      then [\<lparr>ityp = itemWarning, val = ''lex: Found PropertyIdent wider than 2 characters''\<rparr>]
      else [])"

definition afterValue :: "string \<Rightarrow> stateFn" where
  "afterValue r =
     (case r of
        [] \<Rightarrow> StLexTree
      | p # _ \<Rightarrow>
          if p = CHR '';'' \<or> p = CHR ''('' \<or> p = CHR '')'' \<or> p = eof
          then StLexTree else StLexProperty)"

definition propertyItems :: "string \<Rightarrow> string \<Rightarrow> item list" where
  "propertyItems ident v =
     [\<lparr>ityp = itemPropertyIdent, val = ident\<rparr>, \<lparr>ityp = itemOpenBracket, val = ''[''\<rparr>,
      \<lparr>ityp = itemPropertyValue, val = v\<rparr>, \<lparr>ityp = itemCloseBracket, val = '']''\<rparr>]"

lemma identLoop_semi: "identLoop acc s = IdentSemiColon r \<Longrightarrow> acc = [] \<and> s = CHR '';'' # r"
  by (induction acc s rule: identLoop.induct) (auto split: if_splits)

lemma lexProperty_eq:
  "identLoop [] (consumeWhitespace (rest lx)) = IdentError msg r \<Longrightarrow>
     lexProperty lx = ([errorf msg], None, lx\<lparr>rest := r\<rparr>)"
  "identLoop [] (consumeWhitespace (rest lx)) = IdentSemiColon r \<Longrightarrow>
     lexProperty lx = ([], Some StLexSemiColon, lx\<lparr>rest := r\<rparr>)"
  "identLoop [] (consumeWhitespace (rest lx)) = IdentBreak ident (CHR ''['' # cs) \<Longrightarrow>
   valueLoop [] cs = ValueError msg r' \<Longrightarrow>
     lexProperty lx =
       (warningFor ident @
          [\<lparr>ityp = itemPropertyIdent, val = ident\<rparr>, \<lparr>ityp = itemOpenBracket, val = ''[''\<rparr>,
           errorf msg], None, lx\<lparr>rest := r'\<rparr>)"
  "identLoop [] (consumeWhitespace (rest lx)) = IdentBreak ident (CHR ''['' # cs) \<Longrightarrow>
   valueLoop [] cs = ValueBreak v (CHR '']'' # cs') \<Longrightarrow>
     lexProperty lx =
       (warningFor ident @ propertyItems ident v, Some (afterValue (consumeWhitespace cs')),
        lx\<lparr>rest := consumeWhitespace cs'\<rparr>)"
  by (simp_all add: lexProperty_def Let_def warningFor_def propertyItems_def afterValue_def)

lemma lexProperty_cases:
  assumes "lexProperty lx = (out, nx, lx')"
  shows "(nx = None \<and> (\<exists>msg. out = [errorf msg]))
     \<or> (nx = Some StLexSemiColon \<and> out = [] \<and> treeDepth lx' = treeDepth lx
         \<and> consumeWhitespace (rest lx) = CHR '';'' # rest lx')
     \<or> (nx = None \<and> (\<exists>ident msg. out = warningFor ident @
            [\<lparr>ityp = itemPropertyIdent, val = ident\<rparr>, \<lparr>ityp = itemOpenBracket, val = ''[''\<rparr>,
             errorf msg]))
     \<or> (\<exists>ident v r r'. out = warningFor ident @ propertyItems ident v
           \<and> upperRun ident
           \<and> identLoop [] (consumeWhitespace (rest lx)) = IdentBreak ident (CHR ''['' # r)
           \<and> valueLoop [] r = ValueBreak v (CHR '']'' # r')
           \<and> rest lx' = consumeWhitespace r' \<and> treeDepth lx' = treeDepth lx
           \<and> nx = Some (afterValue (rest lx')))"
proof (cases "identLoop [] (consumeWhitespace (rest lx))")
  case (IdentError msg r)
  from lexProperty_eq(1)[OF this] assms show ?thesis by auto
next
  case (IdentSemiColon r)
  from lexProperty_eq(2)[OF this] assms identLoop_semi[OF IdentSemiColon] show ?thesis by auto
next
  case (IdentBreak ident r)
  from identLoop_break[OF IdentBreak] obtain cs where r: "r = CHR ''['' # cs" by auto
  have up: "upperRun ident" using identLoop_upper[OF IdentBreak] by (simp add: upperRun_def)
  show ?thesis
  proof (cases "valueLoop [] cs")
    case (ValueError msg r')
    from lexProperty_eq(3)[OF IdentBreak[unfolded r] this] assms
    have "nx = None \<and> out = warningFor ident @
            [\<lparr>ityp = itemPropertyIdent, val = ident\<rparr>, \<lparr>ityp = itemOpenBracket, val = ''[''\<rparr>,
             errorf msg]" by simp
    then show ?thesis by blast
  next
    case (ValueBreak v r')
    from valueLoop_break[OF ValueBreak] obtain cs' where r': "r' = CHR '']'' # cs'" by auto
    from lexProperty_eq(4)[OF IdentBreak[unfolded r] ValueBreak[unfolded r']] assms
    have "out = warningFor ident @ propertyItems ident v
           \<and> rest lx' = consumeWhitespace cs' \<and> treeDepth lx' = treeDepth lx
           \<and> nx = Some (afterValue (rest lx'))" by auto
    with up IdentBreak r ValueBreak r' show ?thesis by blast
  qed
qed

definition warningItem :: item where
  "warningItem = \<lparr>ityp = itemWarning, val = ''lex: Found PropertyIdent wider than 2 characters''\<rparr>"

lemma warningFor_cases: "warningFor ident = [] \<or> warningFor ident = [warningItem]"
  by (simp add: warningFor_def warningItem_def)

lemma run_bytes_cases:
  "(\<exists>v. run StLexBytes lx = [\<lparr>ityp = itemEOF, val = v\<rparr>])
   \<or> (\<exists>lx'. run StLexBytes lx = run StLexOpenParen lx' \<and> treeDepth lx' = treeDepth lx)
   \<or> (\<exists>lx'. run StLexBytes lx = run StLexCloseParen lx' \<and> treeDepth lx' = treeDepth lx)"
proof -
  obtain out nx lx' where s: "lexBytesLoop (treeDepth lx) (rest lx) = (out, nx, lx')"
    by (cases "lexBytesLoop (treeDepth lx) (rest lx)") auto
  from lexBytesLoop_cases[OF s] s show ?thesis
    by (auto simp: run.simps[of StLexBytes lx] stateStep_def lexBytes_def)
qed

lemma run_tree_cases:
  "run StLexTree lx = [errorf eofInTreeMessage]
   \<or> (\<exists>lx'. run StLexTree lx = run StLexOpenParen lx' \<and> treeDepth lx' = treeDepth lx)
   \<or> (\<exists>lx'. run StLexTree lx = run StLexCloseParen lx' \<and> treeDepth lx' = treeDepth lx)
   \<or> (\<exists>lx'. run StLexTree lx = run StLexSemiColon lx' \<and> treeDepth lx' = treeDepth lx)"
proof -
  obtain out nx lx' where s: "lexTreeLoop (treeDepth lx) (rest lx) = (out, nx, lx')"
    by (cases "lexTreeLoop (treeDepth lx) (rest lx)") auto
  from lexTreeLoop_cases[OF s] s show ?thesis
    by (auto simp: run.simps[of StLexTree lx] stateStep_def lexTree_def)
qed

lemma run_property_cases:
  "(\<exists>msg. run StLexProperty lx = [errorf msg])
   \<or> (\<exists>lx'. run StLexProperty lx = run StLexSemiColon lx' \<and> treeDepth lx' = treeDepth lx
         \<and> consumeWhitespace (rest lx) = CHR '';'' # rest lx')
   \<or> (\<exists>ident msg. run StLexProperty lx = warningFor ident @
          [\<lparr>ityp = itemPropertyIdent, val = ident\<rparr>, \<lparr>ityp = itemOpenBracket, val = ''[''\<rparr>,
           errorf msg])
   \<or> (\<exists>ident v r r' lx'.
         run StLexProperty lx
           = warningFor ident @ propertyItems ident v @ run (afterValue (rest lx')) lx'
         \<and> upperRun ident
         \<and> identLoop [] (consumeWhitespace (rest lx)) = IdentBreak ident (CHR ''['' # r)
         \<and> valueLoop [] r = ValueBreak v (CHR '']'' # r')
         \<and> rest lx' = consumeWhitespace r' \<and> treeDepth lx' = treeDepth lx)"
proof -
  obtain out nx lx' where s: "lexProperty lx = (out, nx, lx')"
    by (cases "lexProperty lx") auto
  from lexProperty_cases[OF s]
  consider (a) msg where "nx = None" "out = [errorf msg]"
    | (b) "nx = Some StLexSemiColon" "out = []" "treeDepth lx' = treeDepth lx"
          "consumeWhitespace (rest lx) = CHR '';'' # rest lx'"
    | (c) ident msg where "nx = None" "out = warningFor ident @
            [\<lparr>ityp = itemPropertyIdent, val = ident\<rparr>, \<lparr>ityp = itemOpenBracket, val = ''[''\<rparr>,
             errorf msg]"
    | (d) ident v r r' where "out = warningFor ident @ propertyItems ident v"
           "upperRun ident"
           "identLoop [] (consumeWhitespace (rest lx)) = IdentBreak ident (CHR ''['' # r)"
           "valueLoop [] r = ValueBreak v (CHR '']'' # r')"
           "rest lx' = consumeWhitespace r'" "treeDepth lx' = treeDepth lx"
           "nx = Some (afterValue (rest lx'))"
    by blast
  then show ?thesis
  proof cases
    case a
    with s have "run StLexProperty lx = [errorf msg]"
      by (simp add: run.simps[of StLexProperty lx] stateStep_def)
    then show ?thesis by blast
  next
    case b
    with s have "run StLexProperty lx = run StLexSemiColon lx'"
      by (simp add: run.simps[of StLexProperty lx] stateStep_def)
    with b show ?thesis by blast
  next
    case c
    with s have "run StLexProperty lx = warningFor ident @
            [\<lparr>ityp = itemPropertyIdent, val = ident\<rparr>, \<lparr>ityp = itemOpenBracket, val = ''[''\<rparr>,
             errorf msg]"
      by (simp add: run.simps[of StLexProperty lx] stateStep_def)
    then show ?thesis by blast
  next
    case d
    with s have "run StLexProperty lx
           = warningFor ident @ propertyItems ident v @ run (afterValue (rest lx')) lx'"
      by (simp add: run.simps[of StLexProperty lx] stateStep_def)
    with d show ?thesis by blast
  qed
qed

lemma run_nonempty: "run st lx \<noteq> []"
proof (cases st)
  case StLexBytes
  with run_bytes_cases[of lx] show ?thesis by (auto simp: run_emitting split: if_splits)
next
  case StLexTree
  with run_tree_cases[of lx] show ?thesis by (auto simp: run_emitting split: if_splits)
next
  case StLexProperty
  with run_property_cases[of lx] show ?thesis by (auto simp: run_emitting propertyItems_def split: if_splits)
qed (auto simp: run_emitting split: if_splits)

lemma run_first: "ityp (hd (run st lx)) \<in> firstTypes st"
proof (cases st)
  case StLexBytes
  with run_bytes_cases[of lx] show ?thesis by (auto simp: run_emitting errorf_def split: if_splits)
next
  case StLexTree
  with run_tree_cases[of lx] show ?thesis by (auto simp: run_emitting errorf_def split: if_splits)
next
  case StLexProperty
  from run_property_cases[of lx] show ?thesis
  proof (elim disjE exE conjE)
    fix ident msg
    assume "run StLexProperty lx = warningFor ident @
          [\<lparr>ityp = itemPropertyIdent, val = ident\<rparr>, \<lparr>ityp = itemOpenBracket, val = ''[''\<rparr>,
           errorf msg]"
    with warningFor_cases[of ident] StLexProperty show ?thesis
      by (auto simp: warningItem_def)
  next
    fix ident v r r' lx'
    assume "run StLexProperty lx
           = warningFor ident @ propertyItems ident v @ run (afterValue (rest lx')) lx'"
    with warningFor_cases[of ident] StLexProperty show ?thesis
      by (auto simp: warningItem_def propertyItems_def)
  qed (use StLexProperty in \<open>auto simp: run_emitting errorf_def split: if_splits\<close>)
qed (auto simp: run_emitting errorf_def split: if_splits)

lemma afterValue_cases: "afterValue r = StLexTree \<or> afterValue r = StLexProperty"
  by (auto simp: afterValue_def split: list.splits)

lemma stateStep_tok:
  assumes "stateStep st lx = (out, nx, lx')"
  shows "tokOK out \<and> (\<forall>st'. nx = Some st' \<longrightarrow> out \<noteq> [] \<longrightarrow>
           (\<forall>b\<in>firstTypes st'. follows (ityp (last out)) b))"
proof (cases st)
  case StLexBytes
  with assms lexBytesLoop_cases[of "treeDepth lx" "rest lx" out nx lx'] show ?thesis
    by (auto simp: stateStep_def lexBytes_def tokOK_def wellVal_def)
next
  case StLexOpenParen
  with assms show ?thesis
    by (auto simp: stateStep_def lexOpenParen_def tokOK_def wellVal_def)
next
  case StLexCloseParen
  with assms show ?thesis
    by (auto simp: stateStep_def lexCloseParen_def tokOK_def wellVal_def Let_def errorf_def
          split: if_splits)
next
  case StLexTree
  with assms lexTreeLoop_cases[of "treeDepth lx" "rest lx" out nx lx'] show ?thesis
    by (auto simp: stateStep_def lexTree_def tokOK_def wellVal_def errorf_def)
next
  case StLexSemiColon
  with assms show ?thesis
    by (auto simp: stateStep_def lexSemiColon_def tokOK_def wellVal_def)
next
  case StLexProperty
  with assms have lp: "lexProperty lx = (out, nx, lx')" by (simp add: stateStep_def)
  from lexProperty_cases[OF lp] show ?thesis
  proof (elim disjE exE conjE)
    fix ident msg
    assume "nx = None" "out = warningFor ident @
            [\<lparr>ityp = itemPropertyIdent, val = ident\<rparr>, \<lparr>ityp = itemOpenBracket, val = ''[''\<rparr>,
             errorf msg]"
    with warningFor_cases[of ident] show ?thesis
      by (auto simp: tokOK_def wellVal_def errorf_def warningItem_def)
  next
    fix ident v r r'
    assume "out = warningFor ident @ propertyItems ident v" "nx = Some (afterValue (rest lx'))"
    with warningFor_cases[of ident] afterValue_cases[of "rest lx'"] show ?thesis
      by (auto simp: tokOK_def wellVal_def propertyItems_def warningItem_def)
  qed (auto simp: tokOK_def wellVal_def errorf_def)
qed

lemma tokOK_append:
  "tokOK (xs @ ys) = (tokOK xs \<and> tokOK ys \<and>
      (xs = [] \<or> ys = [] \<or> follows (ityp (last xs)) (ityp (hd ys))))"
  by (auto simp: tokOK_def successively_append_iff)

lemma tokOK_run: "tokOK (run st lx)"
proof (induction st lx rule: run.induct)
  case (1 st lx)
  obtain out nx lx' where s: "stateStep st lx = (out, nx, lx')"
    by (cases "stateStep st lx") auto
  note tk = stateStep_tok[OF s]
  show ?case
  proof (cases nx)
    case None
    with s tk show ?thesis by (simp add: run.simps[of st lx])
  next
    case (Some st')
    from "1.IH"[OF s[symmetric] refl Some] have ih: "tokOK (run st' lx')" .
    from run_first[of st' lx'] tk Some
    have "out \<noteq> [] \<Longrightarrow> follows (ityp (last out)) (ityp (hd (run st' lx')))" by blast
    with ih tk Some s show ?thesis by (auto simp: run.simps[of st lx] tokOK_append)
  qed
qed


section \<open>Lexing the text of the emitted items again\<close>

text \<open>
  When the lexer has run to the end of the input without an error or a warning, lexing
  the concatenated texts of the items it emitted yields the same items, closed by an
  end-of-input item with empty text.
\<close>

definition clean :: "item list \<Rightarrow> bool" where
  "clean ts = (\<forall>it\<in>set ts. treeItem (ityp it))"

lemma clean_simps [simp]: "clean []" "clean (x # xs) = (treeItem (ityp x) \<and> clean xs)"
  "clean (xs @ ys) = (clean xs \<and> clean ys)"
  by (auto simp: clean_def)

definition upperChar :: "char \<Rightarrow> bool" where
  "upperChar c = ((65::nat) \<le> of_char c \<and> of_char c \<le> (90::nat))"

lemma upperChar_neq:
  "upperChar c \<Longrightarrow> c \<noteq> eof \<and> c \<noteq> CHR '';'' \<and> c \<noteq> CHR ''['' \<and> c \<noteq> CHR ''('' \<and> c \<noteq> CHR '')''
     \<and> c \<noteq> CHR '' '' \<and> c \<noteq> CHR 0x0A \<and> c \<noteq> CHR 0x09"
  by (auto simp: upperChar_def eof_def)

lemma identLoop_canon:
  "upperRun ident \<Longrightarrow> identLoop acc (ident @ CHR ''['' # Y) = IdentBreak (acc @ ident) (CHR ''['' # Y)"
proof (induction ident arbitrary: acc)
  case Nil
  then show ?case by (simp add: eof_def)
next
  case (Cons a ident)
  then have "upperChar a" "upperRun ident" by (auto simp: upperRun_def upperChar_def)
  with Cons.IH[of "acc @ [a]"] upperChar_neq[of a] show ?case
    by (auto simp: upperChar_def)
qed

lemma valueLoop_canon:
  "valueLoop acc r = ValueBreak v r' \<Longrightarrow>
     \<exists>u. v = acc @ u \<and> (\<forall>acc' Z. valueLoop acc' (u @ CHR '']'' # Z) = ValueBreak (acc' @ u) (CHR '']'' # Z))"
proof (induction acc r rule: valueLoop.induct)
  case (1 acc)
  then show ?case by simp
next
  case (2 acc n cs)
  show ?case
  proof (cases "n = eof")
    case True
    with "2.prems" show ?thesis by simp
  next
    case ne: False
    show ?thesis
    proof (cases "n = CHR 0x5C")
      case True
      show ?thesis
      proof (cases cs)
        case Nil
        with "2.prems" ne True show ?thesis by simp
      next
        case (Cons m cs')
        with "2.prems" ne True have "valueLoop (acc @ [n, m]) cs' = ValueBreak v r'" by simp
        from "2.IH"(2)[OF ne True Cons this] obtain u where u: "v = (acc @ [n, m]) @ u"
          "\<forall>acc' Z. valueLoop acc' (u @ CHR '']'' # Z) = ValueBreak (acc' @ u) (CHR '']'' # Z)"
          by blast
        have "\<forall>acc' Z. valueLoop acc' ((n # m # u) @ CHR '']'' # Z)
                = ValueBreak (acc' @ n # m # u) (CHR '']'' # Z)"
          using u(2) ne True by simp
        with u(1) show ?thesis by (intro exI[of _ "n # m # u"]) simp
      qed
    next
      case nb: False
      show ?thesis
      proof (cases "n = CHR '']''")
        case True
        with "2.prems" ne nb show ?thesis by (intro exI[of _ "[]"]) (auto simp: eof_def)
      next
        case False
        with "2.prems" ne nb have "valueLoop (acc @ [n]) cs = ValueBreak v r'" by simp
        from "2.IH"(3)[OF ne nb False this] obtain u where u: "v = (acc @ [n]) @ u"
          "\<forall>acc' Z. valueLoop acc' (u @ CHR '']'' # Z) = ValueBreak (acc' @ u) (CHR '']'' # Z)"
          by blast
        have "\<forall>acc' Z. valueLoop acc' ((n # u) @ CHR '']'' # Z)
                = ValueBreak (acc' @ n # u) (CHR '']'' # Z)"
          using u(2) ne nb False by simp
        with u(1) show ?thesis by (intro exI[of _ "n # u"]) simp
      qed
    qed
  qed
qed

lemma valueLoop_canon0:
  "valueLoop [] r = ValueBreak v r' \<Longrightarrow> valueLoop [] (v @ CHR '']'' # Z) = ValueBreak v (CHR '']'' # Z)"
  using valueLoop_canon[of "[]" r v r'] by auto

lemma consumeWhitespace_idem: "consumeWhitespace (consumeWhitespace r) = consumeWhitespace r"
  by (induction r) auto

lemma split_last:
  "xs @ ys = ts @ [e] \<Longrightarrow> ys \<noteq> [] \<Longrightarrow> \<exists>ts2. ys = ts2 @ [e] \<and> ts = xs @ ts2"
  by (metis append_butlast_last_id append_assoc last_appendR butlast_append butlast_snoc last_snoc)

lemma run_split:
  "xs @ run st lx = ts @ [e] \<Longrightarrow> \<exists>ts2. run st lx = ts2 @ [e] \<and> ts = xs @ ts2"
  using split_last[OF _ run_nonempty] by blast

lemma snoc_single: "[x] = ts @ [e] \<Longrightarrow> ts = [] \<and> e = x"
  by (cases ts) auto

lemma tree_head:
  assumes "run StLexTree lx = ts @ [e]" and "ityp e = itemEOF"
  shows "\<exists>c X. untok ts = c # X \<and> (c = CHR '';'' \<or> c = CHR ''('' \<or> c = CHR '')'')"
proof -
  from run_tree_cases[of lx]
  consider (err) "run StLexTree lx = [errorf eofInTreeMessage]"
    | (op) lx' where "run StLexTree lx = run StLexOpenParen lx'"
    | (cl) lx' where "run StLexTree lx = run StLexCloseParen lx'"
    | (se) lx' where "run StLexTree lx = run StLexSemiColon lx'" by blast
  then show ?thesis
  proof cases
    case err
    with assms snoc_single[of "errorf eofInTreeMessage" ts e] show ?thesis
      by (auto simp: errorf_def)
  next
    case op
    with assms have "[\<lparr>ityp = itemOpenParen, val = ''(''\<rparr>]
        @ run StLexTree (lx'\<lparr>treeDepth := treeDepth lx' + 1\<rparr>) = ts @ [e]"
      by (simp add: run_emitting)
    from run_split[OF this] show ?thesis by auto
  next
    case cl
    show ?thesis
    proof (cases "treeDepth lx' - 1 < 0")
      case True
      with cl assms snoc_single[of "errorf ''lex: too many right parentheses''" ts e]
      show ?thesis by (auto simp: run_emitting errorf_def)
    next
      case False
      with cl assms have "[\<lparr>ityp = itemCloseParen, val = '')''\<rparr>]
          @ run (if treeDepth lx' - 1 > 0 then StLexTree else StLexBytes)
                (lx'\<lparr>treeDepth := treeDepth lx' - 1\<rparr>) = ts @ [e]"
        by (simp add: run_emitting)
      from run_split[OF this] show ?thesis by auto
    qed
  next
    case se
    with assms have "[\<lparr>ityp = itemSemiColon, val = '';''\<rparr>] @ run StLexProperty lx' = ts @ [e]"
      by (simp add: run_emitting)
    from run_split[OF this] show ?thesis by auto
  qed
qed

lemma property_head:
  assumes "run StLexProperty lx = ts @ [e]" and "ityp e = itemEOF" and "clean ts"
  shows "\<exists>c X. untok ts = c # X \<and>
           (c = CHR ''['' \<or> upperChar c
            \<or> (c = CHR '';'' \<and> (\<exists>Y. consumeWhitespace (rest lx) = CHR '';'' # Y)))"
proof -
  from run_property_cases[of lx]
  consider (a) msg where "run StLexProperty lx = [errorf msg]"
    | (b) lx' where "run StLexProperty lx = run StLexSemiColon lx'"
          "consumeWhitespace (rest lx) = CHR '';'' # rest lx'"
    | (c) ident msg where "run StLexProperty lx = warningFor ident @
          [\<lparr>ityp = itemPropertyIdent, val = ident\<rparr>, \<lparr>ityp = itemOpenBracket, val = ''[''\<rparr>,
           errorf msg]"
    | (d) ident v lx' where "run StLexProperty lx
           = warningFor ident @ propertyItems ident v @ run (afterValue (rest lx')) lx'"
         "upperRun ident"
    by blast
  then show ?thesis
  proof cases
    case a
    with assms snoc_single[of "errorf msg" ts e] show ?thesis by (auto simp: errorf_def)
  next
    case b
    with assms have "[\<lparr>ityp = itemSemiColon, val = '';''\<rparr>] @ run StLexProperty lx' = ts @ [e]"
      by (simp add: run_emitting)
    from run_split[OF this] b(2) show ?thesis by auto
  next
    case c
    with assms have "(warningFor ident @
          [\<lparr>ityp = itemPropertyIdent, val = ident\<rparr>, \<lparr>ityp = itemOpenBracket, val = ''[''\<rparr>])
           @ [errorf msg] = ts @ [e]" by simp
    then have "e = errorf msg" by (simp only: append1_eq_conv)
    with assms show ?thesis by (simp add: errorf_def)
  next
    case d
    with assms have "(warningFor ident @ propertyItems ident v)
           @ run (afterValue (rest lx')) lx' = ts @ [e]" by simp
    from run_split[OF this] obtain ts2 where
      ts: "ts = (warningFor ident @ propertyItems ident v) @ ts2" by blast
    with assms(3) warningFor_cases[of ident] have w: "warningFor ident = []"
      by (auto simp: warningItem_def treeItem_def nodeItem_def nodeEnd_def)
    show ?thesis
    proof (cases ident)
      case Nil
      with ts w show ?thesis by (simp add: propertyItems_def)
    next
      case (Cons a as)
      with d(2) have "upperChar a" by (simp add: upperRun_def upperChar_def)
      with ts w Cons show ?thesis by (simp add: propertyItems_def)
    qed
  qed
qed

definition canon :: "stateFn \<Rightarrow> item list \<Rightarrow> string" where
  "canon st ts =
     (if st \<in> {StLexOpenParen, StLexCloseParen, StLexSemiColon} then drop 1 (untok ts)
      else untok ts)"

lemma lexer_eqI: "treeDepth (a::lexer) = treeDepth b \<Longrightarrow> a\<lparr>rest := X\<rparr> = b\<lparr>rest := X\<rparr>"
  by (cases a, cases b) simp

lemma lexer_eqI2: "treeDepth (a::lexer) = dp \<Longrightarrow> a\<lparr>rest := X\<rparr> = \<lparr>rest = X, treeDepth = dp\<rparr>"
  by (cases a) simp

lemma lexer_upd_comm:
  "(a::lexer)\<lparr>rest := X, treeDepth := k\<rparr> = a\<lparr>treeDepth := k, rest := X\<rparr>"
  by (cases a) simp

fun stateChar :: "stateFn \<Rightarrow> char" where
  "stateChar StLexOpenParen = CHR ''(''"
| "stateChar StLexCloseParen = CHR '')''"
| "stateChar StLexSemiColon = CHR '';''"
| "stateChar _ = eof"

lemma emit_head:
  assumes "st \<in> {StLexOpenParen, StLexCloseParen, StLexSemiColon}"
    and "run st lx = ts @ [e]" and "ityp e = itemEOF"
  shows "\<exists>tk ts2 st' lx'. ts = tk # ts2 \<and> val tk = [stateChar st] \<and> treeItem (ityp tk)
           \<and> run st lx = tk # run st' lx'"
proof -
  from assms(1) consider "st = StLexOpenParen" | "st = StLexCloseParen" | "st = StLexSemiColon"
    by blast
  then show ?thesis
  proof cases
    case 1
    with assms have "[\<lparr>ityp = itemOpenParen, val = ''(''\<rparr>]
        @ run StLexTree (lx\<lparr>treeDepth := treeDepth lx + 1\<rparr>) = ts @ [e]"
      by (simp add: run_emitting)
    from run_split[OF this] 1 show ?thesis
      by (auto simp: run_emitting treeItem_def nodeEnd_def)
  next
    case 2
    show ?thesis
    proof (cases "treeDepth lx - 1 < 0")
      case True
      with 2 assms snoc_single[of "errorf ''lex: too many right parentheses''" ts e]
      show ?thesis by (auto simp: run_emitting errorf_def)
    next
      case False
      with 2 assms have "[\<lparr>ityp = itemCloseParen, val = '')''\<rparr>]
          @ run (if treeDepth lx - 1 > 0 then StLexTree else StLexBytes)
                (lx\<lparr>treeDepth := treeDepth lx - 1\<rparr>) = ts @ [e]"
        by (simp add: run_emitting)
      from run_split[OF this] 2 False show ?thesis
        by (auto simp: run_emitting treeItem_def nodeEnd_def)
    qed
  next
    case 3
    with assms have "[\<lparr>ityp = itemSemiColon, val = '';''\<rparr>] @ run StLexProperty lx = ts @ [e]"
      by (simp add: run_emitting)
    from run_split[OF this] 3 show ?thesis
      by (auto simp: run_emitting treeItem_def nodeEnd_def)
  qed
qed

lemma run_depends:
  "rest a = rest b \<Longrightarrow> treeDepth a = treeDepth b \<Longrightarrow> run st (a::lexer) = run st b"
  by (cases a, cases b) simp

lemma relex:
  "run st lx = ts @ [e] \<Longrightarrow> ityp e = itemEOF \<Longrightarrow> clean ts \<Longrightarrow>
     run st (lx\<lparr>rest := canon st ts\<rparr>) = ts @ [eofItem]"
proof (induction st lx arbitrary: ts rule: run.induct)
  case (1 st lx)
  obtain out nx lx' where ss: "stateStep st lx = (out, nx, lx')"
    by (cases "stateStep st lx") auto
  have IH: "run st' (lx'\<lparr>rest := canon st' ts2\<rparr>) = ts2 @ [eofItem]"
    if "nx = Some st'" "run st' lx' = ts2 @ [e]" "clean ts2" for st' ts2
    using "1.IH"[OF ss[symmetric] refl that(1) that(2) "1.prems"(2) that(3)] .
  have runeq: "run st lx = (case nx of None \<Rightarrow> out | Some st' \<Rightarrow> out @ run st' lx')"
    using ss by (simp add: run.simps[of st lx] split: option.splits)
  show ?case
  proof (cases st)
    case StLexBytes
    from ss StLexBytes have s: "lexBytesLoop (treeDepth lx) (rest lx) = (out, nx, lx')"
      by (simp add: stateStep_def lexBytes_def)
    from lexBytesLoop_cases[OF s]
    consider (fin) v where "nx = None" "out = [\<lparr>ityp = itemEOF, val = v\<rparr>]"
      | (go) st' where "out = []" "treeDepth lx' = treeDepth lx" "nx = Some st'"
          "st' \<in> {StLexOpenParen, StLexCloseParen}" by blast
    then show ?thesis
    proof cases
      case fin
      with runeq "1.prems"(1) snoc_single[of "\<lparr>ityp = itemEOF, val = v\<rparr>" ts e]
      have "ts = []" by simp
      then show ?thesis using StLexBytes
        by (simp add: canon_def run.simps[of StLexBytes] stateStep_def lexBytes_def eofItem_def)
    next
      case go
      with runeq "1.prems"(1) have r: "run st' lx' = ts @ [e]" by simp
      from emit_head[OF _ r "1.prems"(2)] go(4) obtain tk ts2 where
        ts: "ts = tk # ts2" "val tk = [stateChar st']" by blast
      have c: "canon st' ts = untok ts2" using go(4) ts by (auto simp: canon_def)
      from IH[OF go(3) r "1.prems"(3)] c
      have "run st' (lx'\<lparr>rest := untok ts2\<rparr>) = ts @ [eofItem]" by simp
      moreover have "run StLexBytes (lx\<lparr>rest := stateChar st' # untok ts2\<rparr>)
                     = run st' (lx'\<lparr>rest := untok ts2\<rparr>)"
        using go(2,4)
        by (auto simp: run.simps[of StLexBytes] stateStep_def lexBytes_def eof_def
              intro!: run_depends)
      ultimately show ?thesis using StLexBytes ts by (simp add: canon_def)
    qed
  next
    case StLexTree
    from ss StLexTree have s: "lexTreeLoop (treeDepth lx) (rest lx) = (out, nx, lx')"
      by (simp add: stateStep_def lexTree_def)
    from lexTreeLoop_cases[OF s]
    consider (fin) "nx = None" "out = [errorf eofInTreeMessage]"
      | (go) st' where "out = []" "treeDepth lx' = treeDepth lx" "nx = Some st'"
          "st' \<in> {StLexOpenParen, StLexCloseParen, StLexSemiColon}" by blast
    then show ?thesis
    proof cases
      case fin
      with runeq "1.prems"(1,2) snoc_single[of "errorf eofInTreeMessage" ts e]
      show ?thesis by (simp add: errorf_def)
    next
      case go
      with runeq "1.prems"(1) have r: "run st' lx' = ts @ [e]" by simp
      from emit_head[OF go(4) r "1.prems"(2)] obtain tk ts2 where
        ts: "ts = tk # ts2" "val tk = [stateChar st']" by blast
      have c: "canon st' ts = untok ts2" using go(4) ts by (auto simp: canon_def)
      from IH[OF go(3) r "1.prems"(3)] c
      have "run st' (lx'\<lparr>rest := untok ts2\<rparr>) = ts @ [eofItem]" by simp
      moreover have "run StLexTree (lx\<lparr>rest := stateChar st' # untok ts2\<rparr>)
                     = run st' (lx'\<lparr>rest := untok ts2\<rparr>)"
        using go(2,4)
        by (auto simp: run.simps[of StLexTree] stateStep_def lexTree_def eof_def
              intro!: run_depends)
      ultimately show ?thesis using StLexTree ts by (simp add: canon_def)
    qed
  next
    case StLexOpenParen
    with ss have o: "out = [\<lparr>ityp = itemOpenParen, val = ''(''\<rparr>]" "nx = Some StLexTree"
      "lx' = lx\<lparr>treeDepth := treeDepth lx + 1\<rparr>"
      by (auto simp: stateStep_def lexOpenParen_def)
    with runeq "1.prems"(1) have "out @ run StLexTree lx' = ts @ [e]" by simp
    from run_split[OF this] obtain ts2 where ts2: "run StLexTree lx' = ts2 @ [e]"
      "ts = out @ ts2" by blast
    from IH[OF o(2) ts2(1)] "1.prems"(3) ts2(2)
    have "run StLexTree (lx'\<lparr>rest := untok ts2\<rparr>) = ts2 @ [eofItem]"
      by (simp add: canon_def)
    then show ?thesis using StLexOpenParen o ts2(2)
      by (simp add: canon_def run_emitting lexer_upd_comm)
  next
    case StLexSemiColon
    with ss have o: "out = [\<lparr>ityp = itemSemiColon, val = '';''\<rparr>]" "nx = Some StLexProperty"
      "lx' = lx"
      by (auto simp: stateStep_def lexSemiColon_def)
    with runeq "1.prems"(1) have "out @ run StLexProperty lx' = ts @ [e]" by simp
    from run_split[OF this] obtain ts2 where ts2: "run StLexProperty lx' = ts2 @ [e]"
      "ts = out @ ts2" by blast
    from IH[OF o(2) ts2(1)] "1.prems"(3) ts2(2)
    have "run StLexProperty (lx'\<lparr>rest := untok ts2\<rparr>) = ts2 @ [eofItem]"
      by (simp add: canon_def)
    then show ?thesis using StLexSemiColon o ts2(2)
      by (simp add: canon_def run_emitting)
  next
    case StLexCloseParen
    show ?thesis
    proof (cases "treeDepth lx - 1 < 0")
      case True
      with StLexCloseParen "1.prems"(1,2)
        snoc_single[of "errorf ''lex: too many right parentheses''" ts e]
      show ?thesis by (auto simp: run_emitting errorf_def)
    next
      case False
      let ?st' = "if treeDepth lx - 1 > 0 then StLexTree else StLexBytes"
      from False StLexCloseParen ss
      have o: "out = [\<lparr>ityp = itemCloseParen, val = '')''\<rparr>]" "nx = Some ?st'"
        "lx' = lx\<lparr>treeDepth := treeDepth lx - 1\<rparr>"
        by (auto simp: stateStep_def lexCloseParen_def Let_def)
      with runeq "1.prems"(1) have "out @ run ?st' lx' = ts @ [e]" by simp
      from run_split[OF this] obtain ts2 where ts2: "run ?st' lx' = ts2 @ [e]"
        "ts = out @ ts2" by blast
      from IH[OF o(2) ts2(1)] "1.prems"(3) ts2(2)
      have "run ?st' (lx'\<lparr>rest := untok ts2\<rparr>) = ts2 @ [eofItem]"
        by (auto simp: canon_def)
      then show ?thesis using StLexCloseParen o ts2(2) False
        by (simp add: canon_def run_emitting lexer_upd_comm)
    qed
  next
    case StLexProperty
    with ss have lp: "lexProperty lx = (out, nx, lx')" by (simp add: stateStep_def)
    from lexProperty_cases[OF lp]
    consider (a) msg where "nx = None" "out = [errorf msg]"
      | (b) "nx = Some StLexSemiColon" "out = []" "treeDepth lx' = treeDepth lx"
      | (c) ident msg where "nx = None" "out = warningFor ident @
            [\<lparr>ityp = itemPropertyIdent, val = ident\<rparr>, \<lparr>ityp = itemOpenBracket, val = ''[''\<rparr>,
             errorf msg]"
      | (d) ident v r r' where "out = warningFor ident @ propertyItems ident v"
           "upperRun ident" "valueLoop [] r = ValueBreak v (CHR '']'' # r')"
           "rest lx' = consumeWhitespace r'" "treeDepth lx' = treeDepth lx"
           "nx = Some (afterValue (rest lx'))"
      by blast
    then show ?thesis
    proof cases
      case a
      with runeq "1.prems"(1,2) snoc_single[of "errorf msg" ts e] show ?thesis
        by (simp add: errorf_def)
    next
      case c
      with runeq "1.prems"(1) have "(warningFor ident @
          [\<lparr>ityp = itemPropertyIdent, val = ident\<rparr>, \<lparr>ityp = itemOpenBracket, val = ''[''\<rparr>])
           @ [errorf msg] = ts @ [e]" by simp
      then have "e = errorf msg" by (simp only: append1_eq_conv)
      with "1.prems"(2) show ?thesis by (simp add: errorf_def)
    next
      case b
      with runeq "1.prems"(1) have r: "run StLexSemiColon lx' = ts @ [e]" by simp
      from emit_head[OF _ r "1.prems"(2)] obtain tk ts2 where
        ts: "ts = tk # ts2" "val tk = '';''" by auto
      from IH[OF b(1) r "1.prems"(3)] ts
      have "run StLexSemiColon (lx'\<lparr>rest := untok ts2\<rparr>) = ts @ [eofItem]"
        by (simp add: canon_def)
      moreover have "lexProperty (lx\<lparr>rest := CHR '';'' # untok ts2\<rparr>)
             = ([], Some StLexSemiColon, lx\<lparr>rest := untok ts2\<rparr>)"
        using lexProperty_eq(2)[of "lx\<lparr>rest := CHR '';'' # untok ts2\<rparr>" "untok ts2"]
        by (simp add: eof_def)
      ultimately show ?thesis using StLexProperty ts b(3) lexer_eqI[OF b(3), of "untok ts2"]
        by (simp add: canon_def run.simps[of StLexProperty] stateStep_def)
    next
      case d
      let ?st' = "afterValue (rest lx')"
      from d runeq "1.prems"(1) have "out @ run ?st' lx' = ts @ [e]" by simp
      from run_split[OF this] obtain ts2 where ts2: "run ?st' lx' = ts2 @ [e]"
        "ts = out @ ts2" by blast
      from ts2(2) "1.prems"(3) d(1) warningFor_cases[of ident] have w: "warningFor ident = []"
        by (auto simp: warningItem_def treeItem_def nodeItem_def nodeEnd_def)
      have cl2: "clean ts2" using ts2(2) "1.prems"(3) by simp
      have st': "?st' = StLexTree \<or> ?st' = StLexProperty" by (rule afterValue_cases)
      then have c: "canon ?st' ts2 = untok ts2" by (auto simp: canon_def)
      from IH[OF d(6) ts2(1) cl2] c
      have ih: "run ?st' (lx'\<lparr>rest := untok ts2\<rparr>) = ts2 @ [eofItem]" by simp
      have hd: "consumeWhitespace (untok ts2) = untok ts2 \<and> afterValue (untok ts2) = ?st'"
      proof (cases "?st' = StLexTree")
        case True
        from tree_head[OF ts2(1)[unfolded True] "1.prems"(2)] True show ?thesis
          by (auto simp: afterValue_def)
      next
        case False
        with st' have P: "?st' = StLexProperty" by simp
        from property_head[OF ts2(1)[unfolded P] "1.prems"(2) cl2] obtain c X where
          cx: "untok ts2 = c # X" "c = CHR ''['' \<or> upperChar c
            \<or> (c = CHR '';'' \<and> (\<exists>Y. consumeWhitespace (rest lx') = CHR '';'' # Y))" by blast
        have "\<not> (\<exists>Y. consumeWhitespace (rest lx') = CHR '';'' # Y)"
        proof
          assume "\<exists>Y. consumeWhitespace (rest lx') = CHR '';'' # Y"
          then obtain Y where "rest lx' = CHR '';'' # Y"
            using d(4) by (auto simp: consumeWhitespace_idem)
          with P show False by (simp add: afterValue_def)
        qed
        with cx upperChar_neq[of c] P show ?thesis
          by (auto simp: afterValue_def eof_def)
      qed
      let ?lxc = "lx\<lparr>rest := ident @ CHR ''['' # v @ CHR '']'' # untok ts2\<rparr>"
      have cw: "consumeWhitespace (ident @ CHR ''['' # v @ CHR '']'' # untok ts2)
                = ident @ CHR ''['' # v @ CHR '']'' # untok ts2"
      proof (cases ident)
        case Nil
        then show ?thesis by simp
      next
        case (Cons a as)
        with d(2) have "upperChar a" by (simp add: upperRun_def upperChar_def)
        with upperChar_neq[of a] Cons show ?thesis by simp
      qed
      have "lexProperty ?lxc =
              (warningFor ident @ propertyItems ident v,
               Some (afterValue (consumeWhitespace (untok ts2))),
               ?lxc\<lparr>rest := consumeWhitespace (untok ts2)\<rparr>)"
        using lexProperty_eq(4)[of ?lxc ident "v @ CHR '']'' # untok ts2" v "untok ts2"]
          cw identLoop_canon[OF d(2), of "[]"] valueLoop_canon0[OF d(3)]
        by simp
      with hd have "run StLexProperty ?lxc = out @ run ?st' (lx\<lparr>rest := untok ts2\<rparr>)"
        using d(1) by (simp add: run.simps[of StLexProperty ?lxc] stateStep_def)
      also have "\<dots> = out @ ts2 @ [eofItem]"
        using ih lexer_eqI[OF d(5), of "untok ts2"] by simp
      finally show ?thesis using StLexProperty ts2(2) d(1) w
        by (simp add: canon_def propertyItems_def)
    qed
  qed
qed


section \<open>Serialisation of the parsed trees\<close>

text \<open>
  On the output of the lexer every successful parser function keeps the following sum
  unchanged: the serialisation of what has been built, followed by the text of the items
  not yet received.
\<close>

lemma validatePropertyValues_fields:
  "Identity (fst (validatePropertyValues p)) = Identity p"
  "Values (fst (validatePropertyValues p)) = Values p"
  by (auto simp: validatePropertyValues_def split: prod.splits option.splits)

lemma NewProperty_nil_string: "Property_String (fst (NewProperty ident [])) = ident"
  by (cases "propertyTypeMap ident")
     (simp_all add: NewProperty_def Property_String_def validatePropertyValues_fields)

lemma AddValue_string:
  "Property_String (fst (AddValue p pv)) = Property_String p @ ''['' @ Value pv @ '']''"
  by (simp add: AddValue_def Property_String_def validatePropertyValues_fields
        PropertyValue_String_def)

lemma AddProperty_string:
  "AddProperty n p = (n', None) \<Longrightarrow> Node_String n' = Node_String n @ Property_String p"
  by (auto simp: AddProperty_def Node_String_def split: if_splits)

definition cpS :: "Property option \<Rightarrow> string" where
  "cpS cp = (case cp of None \<Rightarrow> [] | Some p \<Rightarrow> Property_String p)"

definition pendS :: "PropertyValue option \<Rightarrow> string" where
  "pendS cpv = (case cpv of None \<Rightarrow> [] | Some pv \<Rightarrow> ''['' @ Value pv)"

definition pendOK :: "itemType \<Rightarrow> PropertyValue option \<Rightarrow> bool" where
  "pendOK prevTy cpv =
     ((prevTy \<in> {itemSemiColon, itemCloseBracket, itemPropertyIdent} \<and> cpv = None)
      \<or> (prevTy = itemOpenBracket \<and> (\<exists>pv. cpv = Some pv \<and> Value pv = []))
      \<or> prevTy = itemPropertyValue)"

lemma tokOK_Cons2:
  "tokOK (a # b # ts) = (follows (ityp a) (ityp b) \<and> wellVal a \<and> tokOK (b # ts))"
  by (auto simp: tokOK_def)

lemma tokOK_suffix: "tokOK (xs @ ys) \<Longrightarrow> tokOK ys"
  by (simp add: tokOK_append)

lemma tokOK_tl: "tokOK (x # xs) \<Longrightarrow> tokOK xs"
  using tokOK_suffix[of "[x]" xs] by simp

lemma parseNodeLoop_string:
  "parseNodeLoop n cp cpv li its = (n', li', None, its') \<Longrightarrow> tokOK (prev # its) \<Longrightarrow>
   pendOK (ityp prev) cpv \<Longrightarrow>
     Node_String n' @ untok (li' # its') = Node_String n @ cpS cp @ pendS cpv @ untok its"
proof (induction its arbitrary: n cp cpv li prev)
  case Nil
  then show ?case by (simp add: channelClosed_def)
next
  case (Cons it its)
  from Cons.prems(2) have fl: "follows (ityp prev) (ityp it)" and tk: "tokOK (it # its)"
    by (simp_all add: tokOK_Cons2)
  from tk have wv: "wellVal it" by (simp add: tokOK_def)
  note IH = Cons.IH[OF _ tk]
  consider (ending) "nodeEnd (ityp it)" | (ident) "ityp it = itemPropertyIdent"
    | (ob) "ityp it = itemOpenBracket" | (pv) "ityp it = itemPropertyValue"
    | (cb) "ityp it = itemCloseBracket"
    | (other) "ityp it \<in> {itemError, itemWarning, itemEOF}"
    by (cases "ityp it") (auto simp: nodeEnd_def)
  then show ?case
  proof cases
    case other
    with Cons.prems(1) show ?thesis by auto
  next
    case ending
    with fl Cons.prems(3) have none: "cpv = None"
      by (cases "ityp prev") (auto simp: pendOK_def nodeEnd_def)
    show ?thesis
    proof (cases cp)
      case None
      with Cons.prems(1) ending none show ?thesis
        by (auto simp: nodeEnd_def cpS_def pendS_def)
    next
      case (Some p)
      with Cons.prems(1) ending have "AddProperty n p = (n', None)" "li' = it" "its' = its"
        by (auto simp: nodeEnd_def split: prod.splits option.splits)
      with AddProperty_string[of n p n'] Some none show ?thesis
        by (simp add: cpS_def pendS_def)
    qed
  next
    case ident
    with fl Cons.prems(3) have none: "cpv = None"
      by (cases "ityp prev") (auto simp: pendOK_def)
    obtain n1 e1 where ap: "(case cp of Some p \<Rightarrow> AddProperty n p | None \<Rightarrow> (n, None)) = (n1, e1)"
      by (cases "case cp of Some p \<Rightarrow> AddProperty n p | None \<Rightarrow> (n, None)") auto
    obtain p e2 where np: "NewProperty (val it) [] = (p, e2)"
      by (cases "NewProperty (val it) []") auto
    from Cons.prems(1) ident ap np have e: "e1 = None" "e2 = None"
      by (auto split: option.splits)
    with Cons.prems(1) ident ap np
    have rec: "parseNodeLoop n1 (Some p) cpv it its = (n', li', None, its')" by simp
    have s1: "Node_String n1 = Node_String n @ cpS cp"
      using ap e AddProperty_string by (cases cp) (auto simp: cpS_def)
    have s2: "Property_String p = val it" using NewProperty_nil_string[of "val it"] np by simp
    have "pendOK (ityp it) cpv" using ident none by (simp add: pendOK_def)
    from IH[OF rec this] s1 s2 none show ?thesis by (simp add: cpS_def pendS_def)
  next
    case ob
    with fl Cons.prems(3) have none: "cpv = None"
      by (cases "ityp prev") (auto simp: pendOK_def)
    from Cons.prems(1) ob
    have rec: "parseNodeLoop n cp (Some NewEmptyPropertyValue) it its = (n', li', None, its')"
      by simp
    have "pendOK (ityp it) (Some NewEmptyPropertyValue)"
      using ob by (simp add: pendOK_def NewEmptyPropertyValue_def)
    from IH[OF rec this] wv ob none show ?thesis
      by (simp add: pendS_def NewEmptyPropertyValue_def wellVal_def)
  next
    case pv
    with fl Cons.prems(3) obtain v where v: "cpv = Some v" "Value v = []"
      by (cases "ityp prev") (auto simp: pendOK_def)
    from Cons.prems(1) pv v
    have rec: "parseNodeLoop n cp (Some (SetValue v (val it))) it its = (n', li', None, its')"
      by simp
    have "pendOK (ityp it) (Some (SetValue v (val it)))" using pv by (simp add: pendOK_def)
    from IH[OF rec this] v show ?thesis by (simp add: pendS_def SetValue_def)
  next
    case cb
    from Cons.prems(1) cb obtain v where v: "cpv = Some v"
      by (cases cpv) auto
    from Cons.prems(1) cb v obtain p where p: "cp = Some p"
      by (cases cp) auto
    obtain p' e where av: "AddValue p v = (p', e)" by (cases "AddValue p v") auto
    from Cons.prems(1) cb v p av have e: "e = None" by (cases e) auto
    with Cons.prems(1) cb v p av
    have rec: "parseNodeLoop n (Some p') None it its = (n', li', None, its')" by simp
    have "pendOK (ityp it) None" using cb by (simp add: pendOK_def)
    from IH[OF rec this] AddValue_string[of p v] av wv cb v p show ?thesis
      by (simp add: cpS_def pendS_def wellVal_def)
  qed
qed

lemma parseSequenceLoop_string:
  "parseSequenceLoop sq li its = (sq', li', None, its') \<Longrightarrow> tokOK (li # its) \<Longrightarrow>
     concat (map Node_String sq') @ untok (li' # its')
       = concat (map Node_String sq) @ untok (li # its)"
proof (induction sq li its rule: parseSequenceLoop.induct)
  case (1 sq li its)
  show ?case
  proof (cases "ityp li = itemSemiColon")
    case False
    with "1.prems"(1) show ?thesis
      by (auto simp: parseSequenceLoop.simps[of sq li its] split: if_splits)
  next
    case True
    obtain n l2 e2 its2 where pn: "parseNode its = (n, l2, e2, its2)"
      by (cases "parseNode its") auto
    from "1.prems"(1) True pn have e2: "e2 = None"
      by (cases e2) (auto simp: parseSequenceLoop.simps[of sq li its])
    with "1.prems"(1) True pn
    have rec: "parseSequenceLoop (sq @ [n]) l2 its2 = (sq', li', None, its')"
      by (simp add: parseSequenceLoop.simps[of sq li its])
    from pn e2 have pnl: "parseNodeLoop NewNode None None zeroItem its = (n, l2, None, its2)"
      by (simp add: parseNode_def)
    from parseNodeLoop_frame[OF pnl] obtain c1 where c1: "its = c1 @ l2 # its2" by blast
    with "1.prems"(2) have tk2: "tokOK (l2 # its2)"
      using tokOK_suffix[of "li # c1" "l2 # its2"] by simp
    have "pendOK (ityp li) None" using True by (simp add: pendOK_def)
    from parseNodeLoop_string[OF pnl "1.prems"(2) this]
    have "Node_String n @ untok (l2 # its2) = '';'' @ untok its"
      by (simp add: cpS_def pendS_def Node_String_def NewNode_def)
    moreover have "val li = '';''" using "1.prems"(2) True by (simp add: tokOK_def wellVal_def)
    ultimately have "Node_String n @ untok (l2 # its2) = untok (li # its)" by simp
    with "1.IH"[OF True pn[symmetric] refl refl e2 rec tk2] show ?thesis by simp
  qed
qed

definition openS :: "GameTree \<Rightarrow> string" where
  "openS g = ''('' @ concat (map Node_String (Sequence g))
             @ concat (map GameTree_String (Subtrees g))"

lemma GameTree_String_openS: "GameTree_String g = openS g @ '')''"
  by (cases g) (simp add: openS_def)

lemma openS_AddSubtree: "openS (AddSubtree g sub) = openS g @ GameTree_String sub"
  by (simp add: openS_def AddSubtree_def)

lemma parseGameTree_string:
  "parseGameTree its = (gt, None, its') \<Longrightarrow> tokOK its \<Longrightarrow>
     GameTree_String gt @ untok its' = ''('' @ untok its"
  "parseGameTreeLoop g li its2 = (gt2, None, its2') \<Longrightarrow> tokOK (li # its2) \<Longrightarrow>
     GameTree_String gt2 @ untok its2' = openS g @ untok (li # its2)"
proof (induction its and g li its2 arbitrary: gt its' and gt2 its2'
       rule: parseGameTree_parseGameTreeLoop.induct)
  case (1 its)
  obtain sq l1 e1 its1 where ps: "parseSequence its = (sq, l1, e1, its1)"
    by (cases "parseSequence its") auto
  from "1.prems"(1) ps have e1: "e1 = None"
    by (cases e1) (auto simp: parseGameTree.simps[of its])
  with "1.prems"(1) ps have lp: "parseGameTreeLoop (GameTree sq []) l1 its1 = (gt, None, its')"
    by (simp add: parseGameTree.simps[of its])
  from parseSequence_frame[OF ps[unfolded e1]] obtain c1 where c1: "its = c1 @ l1 # its1"
    by blast
  with "1.prems"(2) have tk: "tokOK (l1 # its1)" using tokOK_suffix by blast
  from ps e1 obtain x xs where xs: "its = x # xs"
    "parseSequenceLoop [] x xs = (sq, l1, None, its1)"
    by (cases its) (auto simp: parseSequence_def channelClosed_def)
  from parseSequenceLoop_string[OF xs(2)] "1.prems"(2) xs(1)
  have "concat (map Node_String sq) @ untok (l1 # its1) = untok its" by simp
  with "1.IH"[OF ps[symmetric] refl refl e1 lp tk] show ?case
    by (simp add: openS_def)
next
  case (2 g li its)
  have vl: "wellVal li" using "2.prems"(2) by (simp add: tokOK_def)
  show ?case
  proof (cases "ityp li = itemCloseParen")
    case True
    with "2.prems"(1) have "gt2 = g" "its2' = its"
      by (auto simp: parseGameTreeLoop.simps[of g li its])
    with True vl show ?thesis by (simp add: GameTree_String_openS wellVal_def)
  next
    case False
    with "2.prems"(1) have op: "ityp li = itemOpenParen"
      by (auto simp: parseGameTreeLoop.simps[of g li its] split: if_splits)
    obtain sub e its1 where pg: "parseGameTree its = (sub, e, its1)"
      by (cases "parseGameTree its") auto
    from "2.prems"(1) False op pg have e: "e = None"
      by (cases e) (auto simp: parseGameTreeLoop.simps[of g li its])
    from "2.prems"(1) False op pg e obtain l2 its2 where its1: "its1 = l2 # its2"
      by (cases its1) (auto simp: parseGameTreeLoop.simps[of g li its] channelClosed_def)
    from "2.prems"(1) False op pg e its1
    have rec: "parseGameTreeLoop (AddSubtree g sub) l2 its2 = (gt2, None, its2')"
      by (simp add: parseGameTreeLoop.simps[of g li its])
    have tk1: "tokOK its" using "2.prems"(2) by (rule tokOK_tl)
    from parseGameTree_frame(1)[OF pg[unfolded e]] obtain c1 where "its = c1 @ its1" by blast
    with tk1 its1 have tk2: "tokOK (l2 # its2)" using tokOK_suffix by blast
    from "2.IH"(1)[OF False op pg[unfolded e] tk1]
    have s1: "GameTree_String sub @ untok (l2 # its2) = ''('' @ untok its" using its1 by simp
    from "2.IH"(2)[OF False op pg[symmetric] refl e its1 rec tk2]
    have "GameTree_String gt2 @ untok its2' = openS g @ GameTree_String sub @ untok (l2 # its2)"
      by (simp add: openS_AddSubtree)
    with s1 vl op show ?thesis by (simp add: wellVal_def)
  qed
qed

lemma tokOK_eof_last: "tokOK (xs @ e # ys) \<Longrightarrow> ityp e = itemEOF \<Longrightarrow> ys = []"
  using tokOK_suffix[of xs "e # ys"] by (cases ys) (auto simp: tokOK_Cons2)

lemma parseCollectionLoop_string:
  "parseCollectionLoop c its = (c', None) \<Longrightarrow> tokOK its \<Longrightarrow>
     \<exists>body e. its = body @ [e] \<and> ityp e = itemEOF
        \<and> concat (map GameTree_String c') = concat (map GameTree_String c) @ untok body"
proof (induction c its arbitrary: c' rule: parseCollectionLoop.induct)
  case (1 c)
  then show ?case by (simp add: parseCollectionLoop.simps(1) channelClosed_def)
next
  case (2 c li its)
  show ?case
  proof (cases "ityp li = itemOpenParen")
    case False
    with "2.prems"(1) have eo: "ityp li = itemEOF" "c' = c"
      by (auto simp: parseCollectionLoop.simps(2) split: if_splits)
    with "2.prems"(2) tokOK_eof_last[of "[]" li its] have "its = []" by simp
    with eo show ?thesis by (intro exI[of _ "[]"] exI[of _ li]) simp
  next
    case True
    obtain gt e its1 where pg: "parseGameTree its = (gt, e, its1)"
      by (cases "parseGameTree its") auto
    from "2.prems"(1) True pg have e: "e = None"
      by (cases e) (auto simp: parseCollectionLoop.simps(2))
    with "2.prems"(1) True pg have rec: "parseCollectionLoop (c @ [gt]) its1 = (c', None)"
      by (simp add: parseCollectionLoop.simps(2))
    have tk1: "tokOK its" using "2.prems"(2) by (rule tokOK_tl)
    from parseGameTree_frame(1)[OF pg[unfolded e]] obtain c1 where c1: "its = c1 @ its1" by blast
    with tk1 have tk2: "tokOK its1" using tokOK_suffix by blast
    from "2.IH"[OF True pg[symmetric] refl e rec tk2] obtain body ee where b:
      "its1 = body @ [ee]" "ityp ee = itemEOF"
      "concat (map GameTree_String c') = concat (map GameTree_String (c @ [gt])) @ untok body"
      by blast
    have vl: "val li = ''(''" using "2.prems"(2) True by (simp add: tokOK_def wellVal_def)
    from parseGameTree_string(1)[OF pg[unfolded e] tk1]
    have "GameTree_String gt @ untok its1 = ''('' @ untok its" .
    with b(1) c1 vl have "(GameTree_String gt @ untok body) @ val ee
                          = untok (li # c1 @ body) @ val ee" by simp
    then have "GameTree_String gt @ untok body = untok (li # c1 @ body)"
      by (simp only: append_same_eq)
    with b c1 show ?thesis
      by (intro exI[of _ "li # c1 @ body"] exI[of _ ee]) simp
  qed
qed

text \<open>
  C1: when \<open>Parse\<close> succeeds, serialising the returned GameTrees with \<open>String\<close>, in
  order, and parsing the concatenation again succeeds and returns the same collection:
  the same GameTrees with the same sequences and subtrees, Nodes, Properties (with all
  their fields) and PropertyValues.
\<close>

theorem C1_round_trip:
  assumes "snd (snd (Parse data)) = None"
  shows "fst (Parse (concat (map GameTree_String (fst (Parse data))))) = fst (Parse data)
         \<and> snd (snd (Parse (concat (map GameTree_String (fst (Parse data)))))) = None"
proof -
  obtain c r where pc: "parseCollectionLoop [] (lex data) = (c, r)"
    by (cases "parseCollectionLoop [] (lex data)") auto
  with assms have r: "r = None" and P: "fst (Parse data) = c"
    by (simp_all add: Parse_def parseCollection_def)
  have tk: "tokOK (lex data)" by (simp add: lex_def tokOK_run)
  from parseCollectionLoop_string[OF pc[unfolded r] tk] obtain body e where b:
    "lex data = body @ [e]" "ityp e = itemEOF"
    "concat (map GameTree_String c) = untok body" by auto
  from parseCollectionLoop_frame[OF pc] r obtain cs rm e' rest' where f:
    "lex data = cs @ rm" "\<forall>it\<in>set cs. treeItem (ityp it)"
    "\<forall>tail. parseCollectionLoop [] (cs @ tail) = parseCollectionLoop c tail"
    "rm = e' # rest'" "ityp e' = itemEOF" by blast
  from tk f(1,4,5) tokOK_eof_last[of cs e' rest'] have "rest' = []" by simp
  with f(1,4) b(1) have cs: "cs = body" by simp
  with f(2) have cl: "clean body" by (simp add: clean_def)
  from b(1) have "run StLexBytes \<lparr>rest = data, treeDepth = 0\<rparr> = body @ [e]"
    by (simp add: lex_def)
  from relex[OF this b(2) cl] have "lex (untok body) = body @ [eofItem]"
    by (simp add: lex_def canon_def)
  moreover have "parseCollectionLoop [] (body @ [eofItem]) = (c, None)"
    using f(3) cs by (simp add: parseCollectionLoop.simps(2) eofItem_def)
  ultimately show ?thesis unfolding P b(3) by (simp add: Parse_def parseCollection_def)
qed

theorem C1_round_trip_witness:
  "snd (snd (Parse ''x( ;FF[4] C[a b];B[aa] (;W[bb][])(;;B[cc]) ) (;[])'')) = None
   \<and> fst (Parse (concat (map GameTree_String
        (fst (Parse ''x( ;FF[4] C[a b];B[aa] (;W[bb][])(;;B[cc]) ) (;[])'')))))
      = fst (Parse ''x( ;FF[4] C[a b];B[aa] (;W[bb][])(;;B[cc]) ) (;[])'')
   \<and> length (fst (Parse ''x( ;FF[4] C[a b];B[aa] (;W[bb][])(;;B[cc]) ) (;[])'')) = 2"
proof -
  have h: "snd (snd (Parse ''x( ;FF[4] C[a b];B[aa] (;W[bb][])(;;B[cc]) ) (;[])'')) = None"
    by code_simp
  have k: "length (fst (Parse ''x( ;FF[4] C[a b];B[aa] (;W[bb][])(;;B[cc]) ) (;[])'')) = 2"
    by code_simp
  from C1_round_trip[OF h] h k show ?thesis by simp
qed

end
